theory Spec2Isabelle
  imports Complex_Main "HOL-Library.AList"
begin

section \<open>Data model\<close>

text \<open>
  The application state \<^verbatim>\<open>userData\<close> is a JavaScript object that maps node ids to node
  objects. A node object carries the fields written by \<^verbatim>\<open>createChildNode\<close> and
  \<^verbatim>\<open>updateNode\<close>; any of them can be missing (a node created by patching an unknown id
  has only the patched fields), so every field is optional. \<open>None\<close> stands for a field
  that is absent, \<^verbatim>\<open>undefined\<close> or \<^verbatim>\<open>null\<close>: the code never tells these apart (it only
  uses \<^verbatim>\<open>?.\<close>, \<^verbatim>\<open>??\<close>, \<^verbatim>\<open>||\<close> and truthiness tests on them).
\<close>

type_synonym ident = string

record node =
  title :: "string option"
  type :: "string option"
  children :: "ident list option"
  visible :: "bool option"
  completed :: "bool option"
  dueDate :: "string option"
  repeatDays :: "int option"
  content :: "string option"
  depth :: "int option"

text \<open>
  The object itself is an association list in the order of \<^verbatim>\<open>Object.entries\<close>; a key is
  looked up with \<^const>\<open>map_of\<close>. The spread \<^verbatim>\<open>{...prev, [k]: v}\<close> is \<^const>\<open>AList.update\<close>: an
  existing key keeps its place, a new key goes to the end.
\<close>

type_synonym graph = "(ident \<times> node) list"

text \<open>\<^verbatim>\<open>info?.children || []\<close>, also the guard \<^verbatim>\<open>node?.children?.length\<close> before a loop
  over the children.\<close>

definition kids :: "node \<Rightarrow> ident list" where
  "kids n = (case children n of None \<Rightarrow> [] | Some cs \<Rightarrow> cs)"

definition kidsOf :: "graph \<Rightarrow> ident \<Rightarrow> ident list" where
  "kidsOf g k = (case map_of g k of None \<Rightarrow> [] | Some n \<Rightarrow> kids n)"

text \<open>The children relation of a graph, and the ids that occur in it.\<close>

definition childRel :: "graph \<Rightarrow> (ident \<times> ident) set" where
  "childRel g = {(a, b). b \<in> set (kidsOf g a)}"

definition allIds :: "graph \<Rightarrow> ident set" where
  "allIds g = set (map fst g) \<union> (\<Union>e \<in> set g. set (kids (snd e)))"

section \<open>recursiveDelete (components.js)\<close>

text \<open>
  Step 1 of \<^verbatim>\<open>recursiveDelete\<close>: the loop
  \<^verbatim>\<open>while (stack.length) { current = stack.pop(); if (toDelete.has(current)) continue;
  toDelete.add(current); for (c of node.children) stack.push(c) }\<close>.
  The stack is a list whose head is the top, so pushing the children in order puts them
  reversed in front. \<open>toDelete\<close> is the JavaScript \<^verbatim>\<open>Set\<close> in insertion order.
\<close>

function collectToDelete :: "graph \<Rightarrow> ident list \<Rightarrow> ident list \<Rightarrow> ident list" where
  "collectToDelete newData [] toDelete = toDelete"
| "collectToDelete newData (current # stack) toDelete =
     (if current \<in> set toDelete then collectToDelete newData stack toDelete
      else collectToDelete newData (rev (kidsOf newData current) @ stack) (toDelete @ [current]))"
  by pat_completeness auto

lemma finite_allIds: "finite (allIds g)"
  by (simp add: allIds_def)

lemma kidsOf_allIds: "set (kidsOf g k) \<subseteq> allIds g"
proof (cases "map_of g k")
  case None
  then show ?thesis by (simp add: kidsOf_def)
next
  case (Some n)
  then have "(k, n) \<in> set g" by (rule map_of_SomeD)
  then show ?thesis using Some by (force simp: kidsOf_def allIds_def)
qed

termination collectToDelete
proof (relation "inv_image (less_than <*lex*> less_than)
    (\<lambda>(g, st, del). (card ((allIds g \<union> set st) - set del), length st))", goal_cases)
  case 1
  show ?case by (intro wf_inv_image wf_lex_prod wf_less_than)
next
  case (2 newData current stack toDelete)
  have "(allIds newData \<union> set stack) - set toDelete
      \<subseteq> (allIds newData \<union> set (current # stack)) - set toDelete" by auto
  moreover have "finite ((allIds newData \<union> set (current # stack)) - set toDelete)"
    by (simp add: finite_allIds)
  ultimately have "card ((allIds newData \<union> set stack) - set toDelete)
      \<le> card ((allIds newData \<union> set (current # stack)) - set toDelete)"
    by (rule card_mono[rotated])
  then show ?case by auto
next
  case (3 newData current stack toDelete)
  let ?A = "(allIds newData \<union> set (rev (kidsOf newData current) @ stack)) - set (toDelete @ [current])"
  let ?B = "(allIds newData \<union> set (current # stack)) - set toDelete"
  have "?A \<subseteq> ?B" using kidsOf_allIds[of newData current] by auto
  moreover have "current \<in> ?B" "current \<notin> ?A" using 3 by auto
  ultimately have "?A \<subset> ?B" by auto
  moreover have "finite ?B" by (simp add: finite_allIds)
  ultimately have "card ?A < card ?B" by (rule psubset_card_mono[rotated])
  then show ?case by simp
qed

text \<open>Step 3 for one surviving node: its \<^verbatim>\<open>children\<close> array is filtered, and the node
  object is replaced only when the filter removed something.\<close>

definition stripDeleted :: "ident list \<Rightarrow> node \<Rightarrow> node" where
  "stripDeleted toDelete n =
     (case children n of
        None \<Rightarrow> n
      | Some cs \<Rightarrow>
          if cs = [] then n
          else let filtered = filter (\<lambda>cid. cid \<notin> set toDelete) cs
               in if length filtered \<noteq> length cs then n\<lparr>children := Some filtered\<rparr> else n)"

definition recursiveDelete :: "ident \<Rightarrow> graph \<Rightarrow> graph" where
  "recursiveDelete nodeId data =
     (let toDelete = collectToDelete data [nodeId] [];
          newData = filter (\<lambda>(k, n). k \<notin> set toDelete) data
      in map (\<lambda>(key, n). (key, stripDeleted toDelete n)) newData)"

text \<open>\<^verbatim>\<open>deleteNodeById\<close>: the root is never deleted.\<close>

definition deleteNodeById :: "ident \<Rightarrow> graph \<Rightarrow> graph" where
  "deleteNodeById nid prev = (if nid = ''root'' then prev else recursiveDelete nid prev)"

subsection \<open>The collected set is the set of descendants\<close>

lemma collectToDelete_keeps: "set toDelete \<subseteq> set (collectToDelete g stack toDelete)"
  by (induction g stack toDelete rule: collectToDelete.induct) auto

lemma collectToDelete_closed:
  assumes "\<forall>x \<in> set toDelete. set (kidsOf g x) \<subseteq> set toDelete \<union> set stack"
  shows "set stack \<subseteq> set (collectToDelete g stack toDelete)
       \<and> (\<forall>x \<in> set (collectToDelete g stack toDelete).
             set (kidsOf g x) \<subseteq> set (collectToDelete g stack toDelete))"
  using assms
proof (induction g stack toDelete rule: collectToDelete.induct)
  case (1 newData toDelete)
  then show ?case by simp
next
  case (2 newData current stack toDelete)
  show ?case
  proof (cases "current \<in> set toDelete")
    case True
    have pre: "\<forall>x \<in> set toDelete. set (kidsOf newData x) \<subseteq> set toDelete \<union> set stack"
      using "2.prems" True by auto
    have "current \<in> set (collectToDelete newData stack toDelete)"
      using True collectToDelete_keeps[of toDelete newData stack] by auto
    with "2.IH"(1)[OF True pre] True show ?thesis by simp
  next
    case False
    have pre: "\<forall>x \<in> set (toDelete @ [current]). set (kidsOf newData x)
        \<subseteq> set (toDelete @ [current]) \<union> set (rev (kidsOf newData current) @ stack)"
      using "2.prems" by auto
    have "current \<in> set (collectToDelete newData (rev (kidsOf newData current) @ stack)
        (toDelete @ [current]))"
      using collectToDelete_keeps[of "toDelete @ [current]" newData
          "rev (kidsOf newData current) @ stack"] by auto
    with "2.IH"(2)[OF False pre] False show ?thesis by simp
  qed
qed

lemma collectToDelete_sound:
  "set (collectToDelete g stack toDelete) \<subseteq> set toDelete \<union> (childRel g)\<^sup>* `` set stack"
proof (induction g stack toDelete rule: collectToDelete.induct)
  case (1 newData toDelete)
  then show ?case by simp
next
  case (2 newData current stack toDelete)
  show ?case
  proof (cases "current \<in> set toDelete")
    case True
    with "2.IH"(1) show ?thesis by auto
  next
    case False
    have "(childRel newData)\<^sup>* `` set (rev (kidsOf newData current) @ stack)
        \<subseteq> (childRel newData)\<^sup>* `` set (current # stack)"
    proof
      fix y
      assume "y \<in> (childRel newData)\<^sup>* `` set (rev (kidsOf newData current) @ stack)"
      then obtain x where x: "x \<in> set (kidsOf newData current) \<union> set stack"
        and xy: "(x, y) \<in> (childRel newData)\<^sup>*" by auto
      show "y \<in> (childRel newData)\<^sup>* `` set (current # stack)"
      proof (cases "x \<in> set stack")
        case True
        with xy show ?thesis by auto
      next
        case False
        with x have "(current, x) \<in> childRel newData" by (simp add: childRel_def)
        with xy have "(current, y) \<in> (childRel newData)\<^sup>*"
          by (simp add: converse_rtrancl_into_rtrancl)
        then show ?thesis by auto
      qed
    qed
    with "2.IH"(2)[OF False] False show ?thesis by auto
  qed
qed

lemma rtrancl_closed_subset:
  assumes "(x, y) \<in> r\<^sup>*" and "x \<in> R" and "\<And>a b. a \<in> R \<Longrightarrow> (a, b) \<in> r \<Longrightarrow> b \<in> R"
  shows "y \<in> R"
  using assms by (induction rule: rtrancl_induct) auto

lemma collectToDelete_descendants:
  "set (collectToDelete g [x] []) = {d. (x, d) \<in> (childRel g)\<^sup>*}"
proof
  show "set (collectToDelete g [x] []) \<subseteq> {d. (x, d) \<in> (childRel g)\<^sup>*}"
    using collectToDelete_sound[of g "[x]" "[]"] by auto
next
  let ?R = "set (collectToDelete g [x] [])"
  have cl: "set [x] \<subseteq> ?R \<and> (\<forall>a \<in> ?R. set (kidsOf g a) \<subseteq> ?R)"
    by (rule collectToDelete_closed) simp
  show "{d. (x, d) \<in> (childRel g)\<^sup>*} \<subseteq> ?R"
  proof
    fix d
    assume "d \<in> {d. (x, d) \<in> (childRel g)\<^sup>*}"
    then have "(x, d) \<in> (childRel g)\<^sup>*" by simp
    then show "d \<in> ?R"
    proof (rule rtrancl_closed_subset)
      show "x \<in> ?R" using cl by simp
    next
      fix a b
      assume "a \<in> ?R" and "(a, b) \<in> childRel g"
      then show "b \<in> ?R" using cl by (auto simp: childRel_def)
    qed
  qed
qed

declare collectToDelete.simps [simp del]

subsection \<open>What recursiveDelete leaves at each key\<close>

lemma map_of_filter_keys:
  "map_of (filter (\<lambda>(k, v). P k) xs) k = (if P k then map_of xs k else None)"
  by (induction xs) auto

lemma map_of_map_values:
  "map_of (map (\<lambda>(k, v). (k, f v)) xs) k = map_option f (map_of xs k)"
  by (induction xs) auto

lemma recursiveDelete_lookup:
  "map_of (recursiveDelete x g) k =
     (if (x, k) \<in> (childRel g)\<^sup>* then None
      else map_option (stripDeleted (collectToDelete g [x] [])) (map_of g k))"
  using collectToDelete_descendants[of g x]
  by (auto simp: recursiveDelete_def Let_def map_of_map_values map_of_filter_keys)

lemma stripDeleted_children:
  "children (stripDeleted D n) = map_option (filter (\<lambda>cid. cid \<notin> set D)) (children n)"
proof (cases "children n")
  case None
  then show ?thesis by (simp add: stripDeleted_def)
next
  case (Some cs)
  show ?thesis
  proof (cases "length (filter (\<lambda>cid. cid \<notin> set D) cs) = length cs")
    case True
    then have "filter (\<lambda>cid. cid \<notin> set D) cs = cs"
      by (metis filter_True length_filter_less less_irrefl)
    with Some True show ?thesis by (simp add: stripDeleted_def Let_def)
  next
    case False
    with Some show ?thesis by (auto simp: stripDeleted_def Let_def)
  qed
qed

lemma stripDeleted_kids:
  "kids (stripDeleted D n) = filter (\<lambda>cid. cid \<notin> set D) (kids n)"
  by (simp add: kids_def stripDeleted_children split: option.splits)

lemma stripDeleted_frame: "stripDeleted D n = n\<lparr>children := children (stripDeleted D n)\<rparr>"
  by (simp add: stripDeleted_def Let_def split: option.splits)

subsection \<open>Example graph\<close>

text \<open>A node as \<^verbatim>\<open>createChildNode\<close> writes it, with the given children and depth.\<close>

definition taskNode :: "ident list \<Rightarrow> int \<Rightarrow> node" where
  "taskNode cs d = \<lparr>title = Some [], type = Some ''task'', children = Some cs,
     visible = Some True, completed = Some False, dueDate = None, repeatDays = Some 0,
     content = None, depth = Some d\<rparr>"

text \<open>\<open>root \<rightarrow> a, c\<close> and \<open>a \<rightarrow> b\<close>.\<close>

definition exampleGraph :: graph where
  "exampleGraph = [(''root'', taskNode [''a'', ''c''] 0), (''a'', taskNode [''b''] 1),
     (''b'', taskNode [] 2), (''c'', taskNode [] 1)]"

lemma recursiveDelete_example:
  "recursiveDelete ''a'' exampleGraph = [(''root'', taskNode [''c''] 0), (''c'', taskNode [] 1)]"
  by (simp add: recursiveDelete_def exampleGraph_def kidsOf_def kids_def taskNode_def
      stripDeleted_def Let_def collectToDelete.simps)

lemma exampleGraph_a_b: "(''a'', ''b'') \<in> (childRel exampleGraph)\<^sup>*"
proof -
  have "(''a'', ''b'') \<in> childRel exampleGraph"
    by (simp add: childRel_def exampleGraph_def kidsOf_def kids_def taskNode_def)
  then show ?thesis by (rule r_into_rtrancl)
qed

subsection \<open>Claims about recursiveDelete\<close>

text \<open>
  C1. For every graph \<open>G\<close> and every id \<open>X\<close>, \<open>recursiveDelete X G\<close> is a graph in which
  \<open>X\<close> and every transitive descendant \<open>d\<close> of \<open>X\<close> (every id reached from \<open>X\<close> along the
  children relation of \<open>G\<close>) is absent as a key, and no remaining node's children list
  contains \<open>X\<close> or such a descendant.
\<close>

theorem recursiveDelete_removes_subtree:
  assumes "(X, d) \<in> (childRel G)\<^sup>*"
  shows "map_of (recursiveDelete X G) d = None
       \<and> (\<forall>k n. map_of (recursiveDelete X G) k = Some n \<longrightarrow> d \<notin> set (kids n))"
proof
  show "map_of (recursiveDelete X G) d = None"
    using assms by (simp add: recursiveDelete_lookup)
next
  show "\<forall>k n. map_of (recursiveDelete X G) k = Some n \<longrightarrow> d \<notin> set (kids n)"
  proof (intro allI impI)
    fix k n
    assume "map_of (recursiveDelete X G) k = Some n"
    then obtain m where "n = stripDeleted (collectToDelete G [X] []) m"
      by (auto simp: recursiveDelete_lookup split: if_splits)
    then have "set (kids n) \<inter> set (collectToDelete G [X] []) = {}"
      by (auto simp: stripDeleted_kids)
    moreover have "d \<in> set (collectToDelete G [X] [])"
      using assms by (simp add: collectToDelete_descendants)
    ultimately show "d \<notin> set (kids n)" by auto
  qed
qed

theorem recursiveDelete_removes_subtree_witness:
  "(''a'', ''b'') \<in> (childRel exampleGraph)\<^sup>*
   \<and> map_of (recursiveDelete ''a'' exampleGraph) ''b'' = None
   \<and> map_of (recursiveDelete ''a'' exampleGraph) ''root'' = Some (taskNode [''c''] 0)
   \<and> ''b'' \<notin> set (kids (taskNode [''c''] 0))"
proof -
  have h: "map_of (recursiveDelete ''a'' exampleGraph) ''root'' = Some (taskNode [''c''] 0)"
    by (simp add: recursiveDelete_example)
  from recursiveDelete_removes_subtree[OF exampleGraph_a_b] h exampleGraph_a_b
  show ?thesis by blast
qed

text \<open>
  C10. For every graph and every id, every node that survives \<open>recursiveDelete\<close> keeps
  all of its fields other than \<open>children\<close>, and its children list is the old one filtered
  (the ids that are not the deleted id or a descendant of it, in their old order; none
  added). A node survives exactly when it is not such a descendant.
\<close>

theorem recursiveDelete_frame:
  "(map_of (recursiveDelete X G) k = Some n' \<longrightarrow>
      (\<exists>n. map_of G k = Some n \<and> (X, k) \<notin> (childRel G)\<^sup>*
         \<and> n' = n\<lparr>children := children n'\<rparr>
         \<and> children n' = map_option (filter (\<lambda>c. (X, c) \<notin> (childRel G)\<^sup>*)) (children n)))
   \<and> (map_of G k = Some n \<and> (X, k) \<notin> (childRel G)\<^sup>* \<longrightarrow> map_of (recursiveDelete X G) k \<noteq> None)"
proof (intro conjI impI)
  assume a: "map_of (recursiveDelete X G) k = Some n'"
  let ?D = "collectToDelete G [X] []"
  from a have nk: "(X, k) \<notin> (childRel G)\<^sup>*"
    by (auto simp: recursiveDelete_lookup split: if_splits)
  with a obtain n where n: "map_of G k = Some n" and n': "n' = stripDeleted ?D n"
    by (auto simp: recursiveDelete_lookup)
  have "(\<lambda>cid. cid \<notin> set ?D) = (\<lambda>c. (X, c) \<notin> (childRel G)\<^sup>*)"
    by (simp add: collectToDelete_descendants)
  then have "children n' = map_option (filter (\<lambda>c. (X, c) \<notin> (childRel G)\<^sup>*)) (children n)"
    using n' by (simp add: stripDeleted_children)
  moreover have "n' = n\<lparr>children := children n'\<rparr>"
    using n' stripDeleted_frame[of ?D n] by simp
  ultimately show "\<exists>n. map_of G k = Some n \<and> (X, k) \<notin> (childRel G)\<^sup>*
         \<and> n' = n\<lparr>children := children n'\<rparr>
         \<and> children n' = map_option (filter (\<lambda>c. (X, c) \<notin> (childRel G)\<^sup>*)) (children n)"
    using n nk by blast
next
  assume "map_of G k = Some n \<and> (X, k) \<notin> (childRel G)\<^sup>*"
  then show "map_of (recursiveDelete X G) k \<noteq> None"
    by (simp add: recursiveDelete_lookup)
qed

theorem recursiveDelete_frame_witness:
  "map_of (recursiveDelete ''a'' exampleGraph) ''root'' = Some (taskNode [''c''] 0)
   \<and> (\<exists>n. map_of exampleGraph ''root'' = Some n
         \<and> taskNode [''c''] 0 = n\<lparr>children := children (taskNode [''c''] 0)\<rparr>
         \<and> children (taskNode [''c''] 0)
             = map_option (filter (\<lambda>c. (''a'', c) \<notin> (childRel exampleGraph)\<^sup>*)) (children n))"
proof -
  have h: "map_of (recursiveDelete ''a'' exampleGraph) ''root'' = Some (taskNode [''c''] 0)"
    by (simp add: recursiveDelete_example)
  from recursiveDelete_frame[of "''a''" exampleGraph "''root''" "taskNode [''c''] 0"] h
  show ?thesis by blast
qed

section \<open>Object literals: updateNode and createChildNode (components.js)\<close>

text \<open>
  A patch (\<^verbatim>\<open>overrides\<close> of \<^verbatim>\<open>createChildNode\<close>, \<^verbatim>\<open>patch\<close> of \<^verbatim>\<open>updateNode\<close>) is an object
  literal: a list of field assignments. The spread \<^verbatim>\<open>{...n, ...patch}\<close> writes them into
  \<open>n\<close> one after the other, so a later assignment of a field wins, and a field the patch
  does not mention keeps its value. A patch can set a field to \<^verbatim>\<open>null\<close> or
  \<^verbatim>\<open>undefined\<close> (\<open>None\<close>), as \<^verbatim>\<open>updateNode({ dueDate: null, content: undefined })\<close> does.
\<close>

datatype field =
    Title "string option"
  | Type "string option"
  | Children "ident list option"
  | Visible "bool option"
  | Completed "bool option"
  | DueDate "string option"
  | RepeatDays "int option"
  | Content "string option"
  | Depth "int option"

fun setField :: "field \<Rightarrow> node \<Rightarrow> node" where
  "setField (Title v) n = n\<lparr>title := v\<rparr>"
| "setField (Type v) n = n\<lparr>type := v\<rparr>"
| "setField (Children v) n = n\<lparr>children := v\<rparr>"
| "setField (Visible v) n = n\<lparr>visible := v\<rparr>"
| "setField (Completed v) n = n\<lparr>completed := v\<rparr>"
| "setField (DueDate v) n = n\<lparr>dueDate := v\<rparr>"
| "setField (RepeatDays v) n = n\<lparr>repeatDays := v\<rparr>"
| "setField (Content v) n = n\<lparr>content := v\<rparr>"
| "setField (Depth v) n = n\<lparr>depth := v\<rparr>"

definition spread :: "node \<Rightarrow> field list \<Rightarrow> node" where
  "spread n patch = fold setField patch n"

text \<open>The object \<^verbatim>\<open>{}\<close>; \<^verbatim>\<open>{...undefined}\<close> is \<^verbatim>\<open>{}\<close> too.\<close>

definition emptyNode :: node where
  "emptyNode = \<lparr>title = None, type = None, children = None, visible = None,
     completed = None, dueDate = None, repeatDays = None, content = None, depth = None\<rparr>"

text \<open>\<^verbatim>\<open>prev[id]\<close> under a spread: a missing key spreads as the empty object.\<close>

definition nodeOrEmpty :: "graph \<Rightarrow> ident \<Rightarrow> node" where
  "nodeOrEmpty g k = (case map_of g k of None \<Rightarrow> emptyNode | Some n \<Rightarrow> n)"

text \<open>
  \<^verbatim>\<open>updateNode\<close> of \<^verbatim>\<open>makeDataForId(id)\<close>:
  \<^verbatim>\<open>setUserData((prev) => ({ ...prev, [id]: { ...prev[id], ...patch } }))\<close>.
  (The call of \<^verbatim>\<open>patchNodeData\<close> after it changes the React Flow view only.)
\<close>

definition updateNode :: "ident \<Rightarrow> field list \<Rightarrow> graph \<Rightarrow> graph" where
  "updateNode nid patch prev = AList.update nid (spread (nodeOrEmpty prev nid) patch) prev"

text \<open>
  \<^verbatim>\<open>createChildNode(parentId, overrides)\<close>. The id \<open>newId\<close> is what \<^verbatim>\<open>generateId()\<close>
  returned (\<^verbatim>\<open>crypto.randomUUID()\<close>), so it is an input here. \<open>userData\<close> is the graph
  the callback closed over (it gives \<^verbatim>\<open>parentDepth\<close>) and \<open>prev\<close> the graph the updater
  receives. In the literal \<^verbatim>\<open>{ ...prev, [newId]: newNode, [parentId]: {...} }\<close> the key
  \<open>newId\<close> is written before \<open>parentId\<close>. The pending position and selection that the
  function also records belong to the view and are left out.
\<close>

definition defaultNode :: node where
  "defaultNode = \<lparr>title = Some [], type = Some ''task'', children = Some [],
     visible = Some True, completed = Some False, dueDate = None, repeatDays = Some 0,
     content = None, depth = None\<rparr>"

definition parentDepth :: "graph \<Rightarrow> ident \<Rightarrow> int" where
  "parentDepth userData parentId =
     (case map_of userData parentId of
        None \<Rightarrow> 0
      | Some p \<Rightarrow> (case depth p of None \<Rightarrow> 0 | Some d \<Rightarrow> d))"

definition newNode :: "graph \<Rightarrow> ident \<Rightarrow> field list \<Rightarrow> node" where
  "newNode userData parentId overrides =
     (spread defaultNode overrides)\<lparr>depth := Some (parentDepth userData parentId + 1)\<rparr>"

definition createChildNode :: "graph \<Rightarrow> ident \<Rightarrow> ident \<Rightarrow> field list \<Rightarrow> graph \<Rightarrow> graph" where
  "createChildNode userData newId parentId overrides prev =
     AList.update parentId
       ((nodeOrEmpty prev parentId)\<lparr>children := Some (kidsOf prev parentId @ [newId])\<rparr>)
       (AList.update newId (newNode userData parentId overrides) prev)"

text \<open>The operation on one snapshot: the closure's graph is the graph being updated.\<close>

definition createChild :: "graph \<Rightarrow> ident \<Rightarrow> ident \<Rightarrow> field list \<Rightarrow> graph" where
  "createChild g newId parentId overrides = createChildNode g newId parentId overrides g"

subsection \<open>Lookups after the update\<close>

lemma updateNode_lookup:
  "map_of (updateNode nid patch prev) k =
     (if k = nid then Some (spread (nodeOrEmpty prev nid) patch) else map_of prev k)"
  by (simp add: updateNode_def update_conv')

lemma createChild_lookup:
  "map_of (createChild g newId parentId overrides) k =
     (if k = parentId
        then Some ((nodeOrEmpty g parentId)\<lparr>children := Some (kidsOf g parentId @ [newId])\<rparr>)
      else if k = newId then Some (newNode g parentId overrides)
      else map_of g k)"
  by (simp add: createChild_def createChildNode_def update_conv')

lemma depth_newNode:
  "depth (newNode g parentId overrides) = Some (parentDepth g parentId + 1)"
  by (simp add: newNode_def)

text \<open>The scenario of the specification: \<open>root\<close> has the one child \<open>A\<close>.\<close>

definition rootWithA :: graph where
  "rootWithA = [(''root'', emptyNode\<lparr>children := Some [''A'']\<rparr>), (''A'', taskNode [] 1)]"

subsection \<open>Claims about createChildNode and updateNode\<close>

text \<open>
  C2, as stated: for a \<open>parentId\<close> that is not a key of the graph, \<open>createChild\<close> returns the
  input graph. It does not: on the graph \<open>rootWithA\<close>, with the unknown parent \<open>ghost\<close>, the
  result has two more entries, the new node \<open>B\<close> and a node \<open>ghost\<close> made of the one field
  \<open>children = [B]\<close>.
\<close>

theorem createChild_missing_parent_counterexample:
  "map_of rootWithA ''ghost'' = None
   \<and> createChild rootWithA ''B'' ''ghost'' [] \<noteq> rootWithA
   \<and> createChild rootWithA ''B'' ''ghost'' [] =
       rootWithA @ [(''B'', defaultNode\<lparr>depth := Some 1\<rparr>),
                    (''ghost'', emptyNode\<lparr>children := Some [''B'']\<rparr>)]"
  by (simp add: createChild_def createChildNode_def rootWithA_def newNode_def spread_def
      parentDepth_def nodeOrEmpty_def kidsOf_def)

text \<open>
  C2, amended: for every graph and every \<open>parentId\<close> that is not a key of it,
  \<open>createChild\<close> stores the new node under \<open>newId\<close> (the defaults, then the overrides, then
  \<open>depth = 1\<close>, the missing parent counting as depth 0) and stores under \<open>parentId\<close> a node
  whose only field is \<open>children = [newId]\<close>; every other key keeps its node.
\<close>

theorem createChild_missing_parent:
  assumes "map_of g parentId = None" and "newId \<noteq> parentId"
  shows "map_of (createChild g newId parentId overrides) parentId
           = Some (emptyNode\<lparr>children := Some [newId]\<rparr>)
       \<and> map_of (createChild g newId parentId overrides) newId
           = Some ((spread defaultNode overrides)\<lparr>depth := Some 1\<rparr>)
       \<and> (\<forall>k. k \<noteq> parentId \<and> k \<noteq> newId \<longrightarrow>
             map_of (createChild g newId parentId overrides) k = map_of g k)"
  using assms
  by (simp add: createChild_lookup nodeOrEmpty_def kidsOf_def newNode_def parentDepth_def)

theorem createChild_missing_parent_witness:
  "map_of rootWithA ''ghost'' = None
   \<and> map_of (createChild rootWithA ''B'' ''ghost'' [Title (Some ''t'')]) ''ghost''
       = Some (emptyNode\<lparr>children := Some [''B'']\<rparr>)
   \<and> map_of (createChild rootWithA ''B'' ''ghost'' [Title (Some ''t'')]) ''B''
       = Some (defaultNode\<lparr>title := Some ''t'', depth := Some 1\<rparr>)
   \<and> map_of (createChild rootWithA ''B'' ''ghost'' [Title (Some ''t'')]) ''root''
       = Some (emptyNode\<lparr>children := Some [''A'']\<rparr>)"
proof -
  have h: "map_of rootWithA ''ghost'' = None" by (simp add: rootWithA_def)
  have r: "map_of rootWithA ''root'' = Some (emptyNode\<lparr>children := Some [''A'']\<rparr>)"
    by (simp add: rootWithA_def)
  have d: "''B'' \<noteq> ''ghost''" by simp
  from createChild_missing_parent[OF h d, of "[Title (Some ''t'')]"] h r
  show ?thesis by (simp add: spread_def)
qed

text \<open>
  C3, as stated: for an id that is not a key of the graph, \<open>updateNode\<close> returns the input
  graph. It does not: patching the unknown id \<open>ghost\<close> with a title appends a node \<open>ghost\<close>
  that holds the title and nothing else.
\<close>

theorem updateNode_missing_id_counterexample:
  "map_of rootWithA ''ghost'' = None
   \<and> updateNode ''ghost'' [Title (Some ''t'')] rootWithA \<noteq> rootWithA
   \<and> updateNode ''ghost'' [Title (Some ''t'')] rootWithA =
       rootWithA @ [(''ghost'', emptyNode\<lparr>title := Some ''t''\<rparr>)]"
  by (simp add: updateNode_def rootWithA_def spread_def nodeOrEmpty_def)

text \<open>
  C3, amended: for every graph and every id that is not a key of it, \<open>updateNode\<close> stores
  under the id a new node that holds exactly the fields of the patch; every other key
  keeps its node.
\<close>

theorem updateNode_missing_id:
  assumes "map_of g nid = None"
  shows "map_of (updateNode nid patch g) nid = Some (spread emptyNode patch)
       \<and> (\<forall>k. k \<noteq> nid \<longrightarrow> map_of (updateNode nid patch g) k = map_of g k)"
  using assms by (simp add: updateNode_lookup nodeOrEmpty_def)

theorem updateNode_missing_id_witness:
  "map_of rootWithA ''ghost'' = None
   \<and> map_of (updateNode ''ghost'' [Completed (Some True)] rootWithA) ''ghost''
       = Some (emptyNode\<lparr>completed := Some True\<rparr>)
   \<and> map_of (updateNode ''ghost'' [Completed (Some True)] rootWithA) ''A''
       = Some (taskNode [] 1)"
proof -
  have h: "map_of rootWithA ''ghost'' = None" by (simp add: rootWithA_def)
  have a: "map_of rootWithA ''A'' = Some (taskNode [] 1)" by (simp add: rootWithA_def)
  from updateNode_missing_id[OF h, of "[Completed (Some True)]"] h a
  show ?thesis by (simp add: spread_def)
qed




section \<open>Reordering siblings on drag stop (components.js, onNodeDragStop)\<close>

text \<open>
  The scan \<^verbatim>\<open>for (const [pid, info] of Object.entries(userData))
  if (info?.children?.includes?.(draggedId)) { parentId = pid; break; }\<close>:
  the first entry whose children hold the dragged id.
\<close>

definition findParent :: "graph \<Rightarrow> ident \<Rightarrow> ident option" where
  "findParent userData draggedId =
     map_option fst (find (\<lambda>(pid, info). draggedId \<in> set (kids info)) userData)"

text \<open>
  \<^verbatim>\<open>orderIndex = new Map(sibs.map((id, idx) => [id, idx]))\<close>: where an id occurs twice, the
  later pair overwrites the earlier one, so the pairs are looked up from the back.
\<close>

definition orderIndex :: "ident list \<Rightarrow> ident \<Rightarrow> nat option" where
  "orderIndex sibs = map_of (rev (zip sibs [0..<length sibs]))"

text \<open>
  The comparator of the sort. \<open>posById\<close> is the map from node id to the y position of
  its React Flow node; positions are real numbers here (a position is never \<^verbatim>\<open>NaN\<close>).
  \<^verbatim>\<open>posById.get(a) ?? Number.POSITIVE_INFINITY\<close> makes a missing id infinite: \<open>None\<close> plays
  that part, and where one of the two is infinite the difference \<^verbatim>\<open>ya - yb\<close> is
  \<open>\<plusminus>\<infinity>\<close>, of which only the sign matters to the sort (\<open>1\<close> and \<open>-1\<close> below). Two
  missing ids have \<^verbatim>\<open>ya === yb\<close> and fall to the tie-break on the current index,
  \<^verbatim>\<open>(orderIndex.get(a) ?? 0) - (orderIndex.get(b) ?? 0)\<close>.
\<close>

definition indexOr0 :: "(ident \<Rightarrow> nat option) \<Rightarrow> ident \<Rightarrow> real" where
  "indexOr0 oi a = (case oi a of None \<Rightarrow> 0 | Some i \<Rightarrow> real i)"

definition compareSibs ::
  "(ident \<Rightarrow> real option) \<Rightarrow> (ident \<Rightarrow> nat option) \<Rightarrow> ident \<Rightarrow> ident \<Rightarrow> real" where
  "compareSibs posById oi a b =
     (let ya = posById a; yb = posById b in
      if ya \<noteq> yb then
        (case (ya, yb) of
           (Some u, Some v) \<Rightarrow> u - v
         | (None, _) \<Rightarrow> 1
         | (Some u, None) \<Rightarrow> -1)
      else indexOr0 oi a - indexOr0 oi b)"

text \<open>
  \<^verbatim>\<open>[...sibs].sort(cmp)\<close>. The comparator above is consistent (it is the lexicographic
  order on position and index), so the sorted array is fixed by the language: the stable
  arrangement in which \<open>a\<close> stands before \<open>b\<close> only if \<open>cmp a b \<le> 0\<close>. Insertion from
  the right computes it.
\<close>

fun insertBy :: "('a \<Rightarrow> 'a \<Rightarrow> real) \<Rightarrow> 'a \<Rightarrow> 'a list \<Rightarrow> 'a list" where
  "insertBy cmp x [] = [x]"
| "insertBy cmp x (y # ys) = (if cmp x y \<le> 0 then x # y # ys else y # insertBy cmp x ys)"

definition sortBy :: "('a \<Rightarrow> 'a \<Rightarrow> real) \<Rightarrow> 'a list \<Rightarrow> 'a list" where
  "sortBy cmp xs = foldr (insertBy cmp) xs []"

text \<open>
  The rest of the handler for the parent that the scan found: \<open>userData\<close> is again the
  graph of the closure and \<open>prev\<close> the one the updater receives. Every \<^verbatim>\<open>return\<close> before
  \<^verbatim>\<open>setUserData\<close> leaves the state as it is.
\<close>

definition reorderChildren ::
  "graph \<Rightarrow> (ident \<Rightarrow> real option) \<Rightarrow> ident \<Rightarrow> graph \<Rightarrow> graph" where
  "reorderChildren userData posById parentId prev =
     (let sibs = kidsOf userData parentId in
      if length sibs \<le> 1 then prev
      else
        let sorted = sortBy (compareSibs posById (orderIndex sibs)) sibs in
        if sibs = sorted then prev
        else AList.update parentId ((nodeOrEmpty prev parentId)\<lparr>children := Some sorted\<rparr>) prev)"

definition onNodeDragStop ::
  "graph \<Rightarrow> (ident \<Rightarrow> real option) \<Rightarrow> ident \<Rightarrow> graph \<Rightarrow> graph" where
  "onNodeDragStop userData posById draggedId prev =
     (if draggedId = [] then prev
      else case findParent userData draggedId of
             None \<Rightarrow> prev
           | Some parentId \<Rightarrow>
               if parentId = [] then prev
               else reorderChildren userData posById parentId prev)"

text \<open>The two operations on one snapshot.\<close>

definition reorderChildrenByPosition ::
  "(ident \<Rightarrow> real option) \<Rightarrow> ident \<Rightarrow> graph \<Rightarrow> graph" where
  "reorderChildrenByPosition posById parentId g = reorderChildren g posById parentId g"

definition dragStop :: "(ident \<Rightarrow> real option) \<Rightarrow> ident \<Rightarrow> graph \<Rightarrow> graph" where
  "dragStop posById draggedId g = onNodeDragStop g posById draggedId g"

subsection \<open>The sort\<close>

lemma set_insertBy: "set (insertBy cmp x ys) = insert x (set ys)"
  by (induction ys) auto

lemma set_sortBy: "set (sortBy cmp xs) = set xs"
  by (induction xs) (auto simp: sortBy_def set_insertBy)

lemma length_insertBy: "length (insertBy cmp x ys) = Suc (length ys)"
  by (induction ys) auto

lemma length_sortBy: "length (sortBy cmp xs) = length xs"
  by (induction xs) (auto simp: sortBy_def length_insertBy)

lemma insertBy_front: "(\<forall>z \<in> set ys. cmp x z \<le> 0) \<Longrightarrow> insertBy cmp x ys = x # ys"
  by (cases ys) auto

lemma sortBy_sorted_id:
  "sorted_wrt (\<lambda>a b. cmp a b \<le> 0) xs \<Longrightarrow> sortBy cmp xs = xs"
proof (induction xs)
  case Nil
  then show ?case by (simp add: sortBy_def)
next
  case (Cons x xs)
  then have "sortBy cmp xs = xs" by simp
  then have "sortBy cmp (x # xs) = insertBy cmp x xs" by (simp add: sortBy_def)
  with Cons.prems show ?case by (simp add: insertBy_front)
qed

lemma sorted_insertBy:
  assumes total: "\<And>a b. cmp a b \<le> 0 \<or> cmp b a \<le> 0"
    and trans: "\<And>a b c. cmp a b \<le> 0 \<Longrightarrow> cmp b c \<le> 0 \<Longrightarrow> cmp a c \<le> 0"
  shows "sorted_wrt (\<lambda>a b. cmp a b \<le> 0) ys
     \<Longrightarrow> sorted_wrt (\<lambda>a b. cmp a b \<le> 0) (insertBy cmp x ys)"
proof (induction ys)
  case Nil
  then show ?case by simp
next
  case (Cons y ys)
  show ?case
  proof (cases "cmp x y \<le> 0")
    case True
    then have "\<forall>z \<in> set ys. cmp x z \<le> 0" using Cons.prems trans by auto
    with True Cons.prems show ?thesis by simp
  next
    case False
    then have "cmp y x \<le> 0" using total[of x y] by simp
    with False Cons show ?thesis by (auto simp: set_insertBy)
  qed
qed

lemma sorted_sortBy:
  assumes total: "\<And>a b. cmp a b \<le> 0 \<or> cmp b a \<le> 0"
    and trans: "\<And>a b c. cmp a b \<le> 0 \<Longrightarrow> cmp b c \<le> 0 \<Longrightarrow> cmp a c \<le> 0"
  shows "sorted_wrt (\<lambda>a b. cmp a b \<le> 0) (sortBy cmp xs)"
proof (induction xs)
  case Nil
  then show ?case by (simp add: sortBy_def)
next
  case (Cons x xs)
  have "sortBy cmp (x # xs) = insertBy cmp x (sortBy cmp xs)" by (simp add: sortBy_def)
  with Cons sorted_insertBy[of cmp, OF total trans] show ?case by simp
qed

subsection \<open>The comparator is a total preorder\<close>

lemma compareSibs_total:
  "compareSibs posById oi a b \<le> 0 \<or> compareSibs posById oi b a \<le> 0"
  by (auto simp: compareSibs_def Let_def split: option.splits)

lemma compareSibs_trans:
  assumes "compareSibs posById oi a b \<le> 0" and "compareSibs posById oi b c \<le> 0"
  shows "compareSibs posById oi a c \<le> 0"
proof (cases "posById a")
  case None
  with assms show ?thesis
    by (cases "posById b"; cases "posById c")
       (auto simp: compareSibs_def Let_def split: if_splits)
next
  case (Some u)
  with assms show ?thesis
    by (cases "posById b"; cases "posById c")
       (auto simp: compareSibs_def Let_def split: if_splits)
qed

lemma compareSibs_other_index:
  "posById a \<noteq> posById b \<Longrightarrow> compareSibs posById oi' a b = compareSibs posById oi a b"
  by (simp add: compareSibs_def Let_def)

lemma compareSibs_tie:
  "posById a = posById b \<Longrightarrow> compareSibs posById oi a b = indexOr0 oi a - indexOr0 oi b"
  by (simp add: compareSibs_def Let_def)

lemma orderIndex_member:
  assumes "a \<in> set xs"
  shows "\<exists>i < length xs. orderIndex xs a = Some i \<and> xs ! i = a"
proof -
  let ?ps = "rev (zip xs [0..<length xs])"
  have "map fst (zip xs [0..<length xs]) = xs" by simp
  then have "fst ` set (zip xs [0..<length xs]) = set xs" by (metis set_map)
  then have "a \<in> fst ` set ?ps" using assms by simp
  then obtain i where i: "map_of ?ps a = Some i"
    by (metis domD dom_map_of_conv_image_fst)
  then have "(a, i) \<in> set (zip xs [0..<length xs])"
    using map_of_SomeD[OF i] by simp
  then obtain k where "k < length xs" and "xs ! k = a" and "[0..<length xs] ! k = i"
    by (auto simp: in_set_zip)
  then have "i < length xs \<and> xs ! i = a" by simp
  with i show ?thesis by (auto simp: orderIndex_def)
qed

text \<open>Sorting once more, with the index map of the sorted list, moves nothing.\<close>

lemma sortBy_again:
  fixes posById :: "ident \<Rightarrow> real option" and xs :: "ident list"
  defines "ys \<equiv> sortBy (compareSibs posById (orderIndex xs)) xs"
  shows "sortBy (compareSibs posById (orderIndex ys)) ys = ys"
proof (rule sortBy_sorted_id, unfold sorted_wrt_iff_nth_less, intro allI impI)
  let ?c = "compareSibs posById (orderIndex xs)"
  let ?c1 = "compareSibs posById (orderIndex ys)"
  have srt: "sorted_wrt (\<lambda>a b. ?c a b \<le> 0) ys"
    unfolding ys_def
    by (rule sorted_sortBy) (rule compareSibs_total, rule compareSibs_trans)
  have nth: "\<And>i j. i < j \<Longrightarrow> j < length ys \<Longrightarrow> ?c (ys ! i) (ys ! j) \<le> 0"
    using srt by (simp add: sorted_wrt_iff_nth_less)
  have sets: "set ys = set xs" by (simp add: ys_def set_sortBy)
  fix i j
  assume ij: "i < j" and j: "j < length ys"
  let ?a = "ys ! i" and ?b = "ys ! j"
  have ab: "?c ?a ?b \<le> 0" using nth[OF ij j] .
  have ain: "?a \<in> set ys" and bin: "?b \<in> set ys" using ij j by simp_all
  show "?c1 ?a ?b \<le> 0"
  proof (cases "posById ?a = posById ?b")
    case False
    then show ?thesis
      using ab compareSibs_other_index[OF False, of "orderIndex ys" "orderIndex xs"] by simp
  next
    case True
    obtain ia where ia: "ia < length ys" "orderIndex ys ?a = Some ia" "ys ! ia = ?a"
      using orderIndex_member[OF ain] by blast
    obtain ib where ib: "ib < length ys" "orderIndex ys ?b = Some ib" "ys ! ib = ?b"
      using orderIndex_member[OF bin] by blast
    obtain ka where ka: "orderIndex xs ?a = Some ka" "xs ! ka = ?a"
      using orderIndex_member[of ?a xs] ain sets by blast
    obtain kb where kb: "orderIndex xs ?b = Some kb" "xs ! kb = ?b"
      using orderIndex_member[of ?b xs] bin sets by blast
    have le1: "ka \<le> kb"
      using ab True ka kb by (simp add: compareSibs_tie indexOr0_def)
    have "ia \<le> ib"
    proof (rule ccontr)
      assume "\<not> ia \<le> ib"
      then have lt: "ib < ia" by simp
      have "?c (ys ! ib) (ys ! ia) \<le> 0" using nth[OF lt ia(1)] .
      then have "?c ?b ?a \<le> 0" using ia ib by simp
      then have "kb \<le> ka"
        using True ka kb compareSibs_tie[of posById ?b ?a "orderIndex xs"]
        by (simp add: indexOr0_def)
      with le1 have "ka = kb" by simp
      with ka kb have "?a = ?b" by simp
      with ia ib have "ia = ib" by simp
      with lt show False by simp
    qed
    then show ?thesis using True ia ib by (simp add: compareSibs_tie indexOr0_def)
  qed
qed

subsection \<open>Reordering twice\<close>

lemma kidsOf_update_children:
  "kidsOf (AList.update p (n\<lparr>children := Some s\<rparr>) g) p = s"
  by (simp add: kidsOf_def kids_def update_conv')

lemma reorderChildrenByPosition_cases:
  "reorderChildrenByPosition posById p g = g
   \<or> (1 < length (kidsOf g p)
      \<and> reorderChildrenByPosition posById p g =
          AList.update p ((nodeOrEmpty g p)\<lparr>children :=
             Some (sortBy (compareSibs posById (orderIndex (kidsOf g p))) (kidsOf g p))\<rparr>) g)"
  by (auto simp: reorderChildrenByPosition_def reorderChildren_def Let_def)

lemma kidsOf_reorder:
  "1 < length (kidsOf g p) \<Longrightarrow>
   kidsOf (reorderChildrenByPosition posById p g) p
     = sortBy (compareSibs posById (orderIndex (kidsOf g p))) (kidsOf g p)"
  by (auto simp: reorderChildrenByPosition_def reorderChildren_def Let_def
      kidsOf_update_children)

lemma reorder_fixpoint:
  assumes "sortBy (compareSibs posById (orderIndex (kidsOf g p))) (kidsOf g p) = kidsOf g p"
  shows "reorderChildrenByPosition posById p g = g"
  using assms by (simp add: reorderChildrenByPosition_def reorderChildren_def Let_def)

lemma reorderChildrenByPosition_twice:
  "reorderChildrenByPosition posById p (reorderChildrenByPosition posById p g)
     = reorderChildrenByPosition posById p g"
proof (cases "1 < length (kidsOf g p)")
  case False
  then have "reorderChildrenByPosition posById p g = g"
    by (simp add: reorderChildrenByPosition_def reorderChildren_def Let_def)
  then show ?thesis by simp
next
  case True
  let ?g1 = "reorderChildrenByPosition posById p g"
  let ?ys = "sortBy (compareSibs posById (orderIndex (kidsOf g p))) (kidsOf g p)"
  have k: "kidsOf ?g1 p = ?ys" using True by (rule kidsOf_reorder)
  have "sortBy (compareSibs posById (orderIndex ?ys)) ?ys = ?ys" by (rule sortBy_again)
  with k show ?thesis by (simp add: reorder_fixpoint)
qed

lemma findParent_Cons:
  "findParent ((k, m) # g) d = (if d \<in> set (kids m) then Some k else findParent g d)"
  by (simp add: findParent_def)

lemma findParent_update:
  assumes "map_of g p = Some n" and "set (kids v) = set (kids n)"
  shows "findParent (AList.update p v g) d = findParent g d"
  using assms
proof (induction g)
  case Nil
  then show ?case by simp
next
  case (Cons e g)
  obtain k m where e: "e = (k, m)" by (cases e)
  show ?case
  proof (cases "k = p")
    case True
    with Cons.prems e have "m = n" by simp
    with True e Cons.prems show ?thesis by (simp add: findParent_Cons)
  next
    case False
    with Cons e show ?thesis by (simp add: findParent_Cons)
  qed
qed

lemma findParent_reorder:
  "findParent (reorderChildrenByPosition posById p g) d = findParent g d"
proof -
  consider "reorderChildrenByPosition posById p g = g"
    | "1 < length (kidsOf g p)" and
      "reorderChildrenByPosition posById p g =
          AList.update p ((nodeOrEmpty g p)\<lparr>children :=
             Some (sortBy (compareSibs posById (orderIndex (kidsOf g p))) (kidsOf g p))\<rparr>) g"
    using reorderChildrenByPosition_cases[of posById p g] by blast
  then show ?thesis
  proof cases
    case 1
    then show ?thesis by simp
  next
    case 2
    from 2(1) obtain n where n: "map_of g p = Some n"
      by (cases "map_of g p") (auto simp: kidsOf_def)
    let ?v = "(nodeOrEmpty g p)\<lparr>children :=
             Some (sortBy (compareSibs posById (orderIndex (kidsOf g p))) (kidsOf g p))\<rparr>"
    have "set (kids ?v) = set (kids n)"
      using n by (simp add: kids_def kidsOf_def set_sortBy)
    with n 2(2) show ?thesis by (simp add: findParent_update)
  qed
qed

lemma dragStop_unfold:
  "dragStop posById d g =
     (if d = [] then g
      else case findParent g d of
             None \<Rightarrow> g
           | Some p \<Rightarrow> if p = [] then g else reorderChildrenByPosition posById p g)"
  by (simp add: dragStop_def onNodeDragStop_def reorderChildrenByPosition_def
      split: option.splits)

lemma dragStop_twice:
  "dragStop posById d (dragStop posById d g) = dragStop posById d g"
proof (cases "d = [] \<or> findParent g d = None \<or> findParent g d = Some []")
  case True
  then have "dragStop posById d g = g" by (auto simp: dragStop_unfold)
  then show ?thesis by simp
next
  case False
  then obtain p where p: "findParent g d = Some p" "p \<noteq> []" "d \<noteq> []" by auto
  then have one: "dragStop posById d g = reorderChildrenByPosition posById p g"
    by (simp add: dragStop_unfold)
  have "findParent (reorderChildrenByPosition posById p g) d = Some p"
    using p by (simp add: findParent_reorder)
  then have "dragStop posById d (reorderChildrenByPosition posById p g)
      = reorderChildrenByPosition posById p (reorderChildrenByPosition posById p g)"
    using p by (simp add: dragStop_unfold)
  with one show ?thesis by (simp add: reorderChildrenByPosition_twice)
qed

subsection \<open>Claim about the reorder\<close>

text \<open>Positions that put \<open>c\<close> above \<open>a\<close> in the example graph; \<open>b\<close> has no position.\<close>

definition examplePositions :: "ident \<Rightarrow> real option" where
  "examplePositions = [''a'' \<mapsto> 50, ''c'' \<mapsto> 10, ''root'' \<mapsto> 0]"

lemma reorder_example:
  "kidsOf (reorderChildrenByPosition examplePositions ''root'' exampleGraph) ''root''
     = [''c'', ''a'']"
  by (simp add: reorderChildrenByPosition_def reorderChildren_def exampleGraph_def
      examplePositions_def kidsOf_def kids_def taskNode_def Let_def sortBy_def
      compareSibs_def orderIndex_def indexOr0_def nodeOrEmpty_def upt_rec)

text \<open>
  C9. Reordering is idempotent: for every graph, every parent id and every position map,
  applying \<open>reorderChildrenByPosition\<close> twice with the same positions gives the graph that
  applying it once gives; and so does the drag-stop handler that finds the parent by its
  scan, for every dragged id.
\<close>

theorem reorder_idempotent:
  "reorderChildrenByPosition posById parentId (reorderChildrenByPosition posById parentId g)
     = reorderChildrenByPosition posById parentId g
   \<and> dragStop posById draggedId (dragStop posById draggedId g) = dragStop posById draggedId g"
  by (simp add: reorderChildrenByPosition_twice dragStop_twice)

theorem reorder_idempotent_witness:
  "kidsOf exampleGraph ''root'' = [''a'', ''c'']
   \<and> kidsOf (reorderChildrenByPosition examplePositions ''root'' exampleGraph) ''root''
       = [''c'', ''a'']
   \<and> kidsOf (reorderChildrenByPosition examplePositions ''root''
         (reorderChildrenByPosition examplePositions ''root'' exampleGraph)) ''root''
       = [''c'', ''a'']"
proof -
  have "kidsOf exampleGraph ''root'' = [''a'', ''c'']"
    by (simp add: exampleGraph_def kidsOf_def kids_def taskNode_def)
  with reorder_idempotent[of examplePositions "''root''" exampleGraph] reorder_example
  show ?thesis by simp
qed

section \<open>saveWithRetry (deprecated/useDriveBackedState.js)\<close>

text \<open>
  The test \<^verbatim>\<open>/429|5\d\d|Rate Limit|quota|timeout|network/i.test(msg)\<close> on the message of
  the error. All patterns are ASCII, so matching bytes is matching characters, and the
  flag \<^verbatim>\<open>i\<close> is a comparison of the lower-cased ASCII letters.
\<close>

definition lowerChar :: "char \<Rightarrow> char" where
  "lowerChar c =
     (if of_char c \<ge> (65::nat) \<and> of_char c \<le> (90::nat) then char_of (of_char c + (32::nat)) else c)"

definition isDigit :: "char \<Rightarrow> bool" where
  "isDigit c = (of_char c \<ge> (48::nat) \<and> of_char c \<le> (57::nat))"

fun containsStr :: "string \<Rightarrow> string \<Rightarrow> bool" where
  "containsStr pat [] = (pat = [])"
| "containsStr pat (c # cs) = (take (length pat) (c # cs) = pat \<or> containsStr pat cs)"

fun contains5xx :: "string \<Rightarrow> bool" where
  "contains5xx (a # b # c # cs) =
     ((a = CHR ''5'' \<and> isDigit b \<and> isDigit c) \<or> contains5xx (b # c # cs))"
| "contains5xx _ = False"

definition retryableMessage :: "string \<Rightarrow> bool" where
  "retryableMessage msg =
     (let low = map lowerChar msg in
      containsStr ''429'' msg \<or> contains5xx msg \<or> containsStr ''rate limit'' low
      \<or> containsStr ''quota'' low \<or> containsStr ''timeout'' low \<or> containsStr ''network'' low)"

text \<open>The message that \<^verbatim>\<open>driveUpdateJson\<close> throws for a response that is not ok:
  \<^verbatim>\<open>`Drive update failed: ${res.status}`\<close>, the status given by its digits.\<close>

definition updateFailed :: "string \<Rightarrow> string" where
  "updateFailed statusDigits = ''Drive update failed: '' @ statusDigits"

definition maxAttempts :: nat where
  "maxAttempts = 5"

definition shouldRetry :: "string \<Rightarrow> nat \<Rightarrow> bool" where
  "shouldRetry msg attempt = (retryableMessage msg \<and> attempt < maxAttempts)"

text \<open>\<^verbatim>\<open>Math.min(8000, base * Math.pow(2, attempt - 1)) * (0.5 + Math.random())\<close> with
  \<^verbatim>\<open>base = 400\<close>; \<open>r\<close> is the number that \<^verbatim>\<open>Math.random()\<close> returned.\<close>

definition backoff :: "nat \<Rightarrow> real \<Rightarrow> real" where
  "backoff attempt r = min 8000 (400 * 2 ^ (attempt - 1)) * (0.5 + r)"

text \<open>
  The loop \<^verbatim>\<open>while (true) { try { await driveUpdateJson(..); return } catch (err) {..} }\<close>.
  The environment is given by two sequences: \<open>upd k\<close> is what the \<open>k\<close>-th call of
  \<^verbatim>\<open>driveUpdateJson\<close> does (\<open>None\<close>: it resolves; \<open>Some msg\<close>: it throws an error with
  that message), and \<open>rnd k\<close> is the random number drawn after the \<open>k\<close>-th call failed.
  \<open>attempt\<close> is the variable of the source: the number of failed calls so far. The
  result is what the function does at the end (\<open>Inr ()\<close>: returns, \<open>Inl msg\<close>: rethrows
  the error), the number of calls of \<^verbatim>\<open>driveUpdateJson\<close> it made, and the waits in
  milliseconds between them.
\<close>

function saveWithRetryFrom ::
  "(nat \<Rightarrow> string option) \<Rightarrow> (nat \<Rightarrow> real) \<Rightarrow> nat \<Rightarrow> real list
     \<Rightarrow> (string + unit) \<times> nat \<times> real list" where
  "saveWithRetryFrom upd rnd attempt waits =
     (case upd attempt of
        None \<Rightarrow> (Inr (), attempt + 1, waits)
      | Some msg \<Rightarrow>
          if \<not> shouldRetry msg (attempt + 1) then (Inl msg, attempt + 1, waits)
          else saveWithRetryFrom upd rnd (attempt + 1)
                 (waits @ [backoff (attempt + 1) (rnd attempt)]))"
  by pat_completeness auto
termination
  by (relation "measure (\<lambda>(upd, rnd, attempt, waits). maxAttempts - attempt)")
     (auto simp: shouldRetry_def)

declare saveWithRetryFrom.simps [simp del]

definition saveWithRetry ::
  "(nat \<Rightarrow> string option) \<Rightarrow> (nat \<Rightarrow> real) \<Rightarrow> (string + unit) \<times> nat \<times> real list" where
  "saveWithRetry upd rnd = saveWithRetryFrom upd rnd 0 []"

text \<open>
  The task that the debounce timer (and \<^verbatim>\<open>flush\<close>) chains after
  \<^verbatim>\<open>setStatus("saving")\<close>: \<^verbatim>\<open>try { id = await ensureFileId(fileName);
  await saveWithRetry(id, payload); if (!destroyedRef.current) setStatus("idle") }
  catch (err) { if (!destroyedRef.current) setStatus("error"); .. }\<close>.
  \<open>fileId\<close> is what \<^verbatim>\<open>ensureFileId\<close> did (\<open>Inl\<close>: it threw). The result is the status
  at the end and the number of write calls.
\<close>

datatype status = Idle | Loading | Saving | NeedsAuth | Error

definition saveTask ::
  "bool \<Rightarrow> string + ident \<Rightarrow> (nat \<Rightarrow> string option) \<Rightarrow> (nat \<Rightarrow> real) \<Rightarrow> status \<times> nat" where
  "saveTask destroyed fileId upd rnd =
     (case fileId of
        Inl err \<Rightarrow> (if destroyed then Saving else Error, 0)
      | Inr fid \<Rightarrow>
          (case saveWithRetry upd rnd of
             (Inr u, calls, waits) \<Rightarrow> (if destroyed then Saving else Idle, calls)
           | (Inl err, calls, waits) \<Rightarrow> (if destroyed then Saving else Error, calls)))"

subsection \<open>How many calls a run makes\<close>

text \<open>The \<open>k\<close>-th call ends the run unless it fails with an error to retry.\<close>

definition retried :: "(nat \<Rightarrow> string option) \<Rightarrow> nat \<Rightarrow> bool" where
  "retried upd k = (case upd k of None \<Rightarrow> False | Some msg \<Rightarrow> shouldRetry msg (k + 1))"

definition endOf :: "string option \<Rightarrow> string + unit" where
  "endOf r = (case r of None \<Rightarrow> Inr () | Some msg \<Rightarrow> Inl msg)"

lemma saveWithRetryFrom_run:
  assumes "\<forall>j. a \<le> j \<and> j < k \<longrightarrow> retried upd j" and "\<not> retried upd k" and "a \<le> k"
  shows "saveWithRetryFrom upd rnd a ws
       = (endOf (upd k), k + 1, ws @ map (\<lambda>j. backoff (j + 1) (rnd j)) [a..<k])"
  using assms
proof (induction "k - a" arbitrary: a ws)
  case 0
  then have "a = k" by simp
  with "0.prems"(2) show ?case
    by (subst saveWithRetryFrom.simps) (simp add: retried_def endOf_def split: option.splits)
next
  case (Suc d)
  then have lt: "a < k" by simp
  with Suc.prems(1) have "retried upd a" by simp
  then obtain msg where msg: "upd a = Some msg" "shouldRetry msg (a + 1)"
    by (auto simp: retried_def split: option.splits)
  have step: "saveWithRetryFrom upd rnd a ws
      = saveWithRetryFrom upd rnd (a + 1) (ws @ [backoff (a + 1) (rnd a)])"
    using msg by (subst saveWithRetryFrom.simps) simp
  have "saveWithRetryFrom upd rnd (a + 1) (ws @ [backoff (a + 1) (rnd a)])
      = (endOf (upd k), k + 1,
         (ws @ [backoff (a + 1) (rnd a)]) @ map (\<lambda>j. backoff (j + 1) (rnd j)) [a + 1..<k])"
  proof (rule Suc.hyps(1))
    show "d = k - (a + 1)" using Suc.hyps(2) by simp
    show "\<forall>j. a + 1 \<le> j \<and> j < k \<longrightarrow> retried upd j" using Suc.prems(1) by simp
    show "\<not> retried upd k" by (rule Suc.prems(2))
    show "a + 1 \<le> k" using lt by simp
  qed
  with step lt show ?case by (simp add: upt_conv_Cons)
qed

lemma retried_bound: "retried upd k \<Longrightarrow> k + 1 < maxAttempts"
  by (auto simp: retried_def shouldRetry_def split: option.splits)

lemma run_ends: "\<exists>k < maxAttempts. (\<forall>j < k. retried upd j) \<and> \<not> retried upd k"
proof -
  have "\<not> retried upd (maxAttempts - 1)"
    using retried_bound[of upd "maxAttempts - 1"] by (auto simp: maxAttempts_def)
  then have ex: "\<exists>k. \<not> retried upd k" by blast
  define k where "k = (LEAST k. \<not> retried upd k)"
  have nk: "\<not> retried upd k" unfolding k_def using ex by (rule LeastI_ex)
  have below: "\<forall>j < k. retried upd j"
    unfolding k_def using not_less_Least by blast
  have "k < maxAttempts"
  proof (rule ccontr)
    assume "\<not> k < maxAttempts"
    then have "maxAttempts - 1 < k" by (simp add: maxAttempts_def)
    with below have "retried upd (maxAttempts - 1)" by blast
    with \<open>\<not> retried upd (maxAttempts - 1)\<close> show False by simp
  qed
  with nk below show ?thesis by blast
qed

lemma saveWithRetry_run:
  assumes "\<forall>j < k. retried upd j" and "\<not> retried upd k"
  shows "saveWithRetry upd rnd
       = (endOf (upd k), k + 1, map (\<lambda>j. backoff (j + 1) (rnd j)) [0..<k])"
  using saveWithRetryFrom_run[of 0 k upd rnd "[]"] assms by (simp add: saveWithRetry_def)

lemma retryable_503: "retryableMessage (updateFailed ''503'')"
  by (simp add: retryableMessage_def updateFailed_def isDigit_def)

lemma not_retryable_404: "\<not> retryableMessage (updateFailed ''404'')"
  by (simp add: retryableMessage_def updateFailed_def isDigit_def lowerChar_def)

subsection \<open>The retryable set\<close>

text \<open>
  What the test accepts, said without the functions that compute it: the message holds
  the text 429, or a 5 followed by two digits, or, in any mix of upper and lower case,
  one of the four markers. For the message that \<^verbatim>\<open>driveUpdateJson\<close> throws for a response
  with a three-character status, that is: the status is 429 or is 5 and two digits.
\<close>

lemma take_eq_iff_prefix: "take (length pat) xs = pat \<longleftrightarrow> (\<exists>ss. xs = pat @ ss)"
proof
  assume "take (length pat) xs = pat"
  then have "xs = pat @ drop (length pat) xs" by (metis append_take_drop_id)
  then show "\<exists>ss. xs = pat @ ss" ..
next
  assume "\<exists>ss. xs = pat @ ss"
  then show "take (length pat) xs = pat" by auto
qed

lemma containsStr_iff: "containsStr pat s \<longleftrightarrow> (\<exists>ps ss. s = ps @ pat @ ss)"
proof (induction s)
  case Nil
  then show ?case by auto
next
  case (Cons c cs)
  have "(\<exists>ps ss. c # cs = ps @ pat @ ss)
      \<longleftrightarrow> (\<exists>ss. c # cs = pat @ ss) \<or> (\<exists>ps ss. cs = ps @ pat @ ss)"
  proof
    assume "\<exists>ps ss. c # cs = ps @ pat @ ss"
    then obtain ps ss where e: "c # cs = ps @ pat @ ss" by blast
    show "(\<exists>ss. c # cs = pat @ ss) \<or> (\<exists>ps ss. cs = ps @ pat @ ss)"
    proof (cases ps)
      case Nil
      with e show ?thesis by auto
    next
      case (Cons p ps')
      with e have "cs = ps' @ pat @ ss" by simp
      then show ?thesis by blast
    qed
  next
    assume "(\<exists>ss. c # cs = pat @ ss) \<or> (\<exists>ps ss. cs = ps @ pat @ ss)"
    then show "\<exists>ps ss. c # cs = ps @ pat @ ss"
    proof
      assume "\<exists>ss. c # cs = pat @ ss"
      then obtain ss where "c # cs = [] @ pat @ ss" by auto
      then show ?thesis by blast
    next
      assume "\<exists>ps ss. cs = ps @ pat @ ss"
      then obtain ps ss where "cs = ps @ pat @ ss" by blast
      then have "c # cs = (c # ps) @ pat @ ss" by simp
      then show ?thesis by blast
    qed
  qed
  with Cons show ?case by (simp add: take_eq_iff_prefix del: take_Suc_Cons)
qed

lemma contains5xx_iff:
  "contains5xx s \<longleftrightarrow> (\<exists>ps b c ss. s = ps @ CHR ''5'' # b # c # ss \<and> isDigit b \<and> isDigit c)"
proof (induction s rule: contains5xx.induct)
  case (1 a b c cs)
  have "(\<exists>ps b' c' ss. a # b # c # cs = ps @ CHR ''5'' # b' # c' # ss \<and> isDigit b' \<and> isDigit c')
      \<longleftrightarrow> (a = CHR ''5'' \<and> isDigit b \<and> isDigit c)
        \<or> (\<exists>ps b' c' ss. b # c # cs = ps @ CHR ''5'' # b' # c' # ss \<and> isDigit b' \<and> isDigit c')"
    (is "?L \<longleftrightarrow> ?A \<or> ?R")
  proof
    assume ?L
    then obtain ps b' c' ss where e: "a # b # c # cs = ps @ CHR ''5'' # b' # c' # ss"
      and d: "isDigit b'" "isDigit c'" by blast
    show "?A \<or> ?R"
    proof (cases ps)
      case Nil
      with e d show ?thesis by auto
    next
      case (Cons p ps')
      with e have "b # c # cs = ps' @ CHR ''5'' # b' # c' # ss" by simp
      with d show ?thesis by blast
    qed
  next
    assume "?A \<or> ?R"
    then show ?L
    proof
      assume ?A
      then have "a # b # c # cs = [] @ CHR ''5'' # b # c # cs \<and> isDigit b \<and> isDigit c" by simp
      then show ?L by blast
    next
      assume ?R
      then obtain ps b' c' ss where "b # c # cs = ps @ CHR ''5'' # b' # c' # ss"
        and d: "isDigit b'" "isDigit c'" by blast
      then have "a # b # c # cs = (a # ps) @ CHR ''5'' # b' # c' # ss" by simp
      with d show ?L by blast
    qed
  qed
  with 1 show ?case by simp
qed (auto simp: append_eq_Cons_conv)

lemma status_retryable:
  "retryableMessage (updateFailed [a, b, c])
     \<longleftrightarrow> [a, b, c] = ''429'' \<or> (a = CHR ''5'' \<and> isDigit b \<and> isDigit c)"
  by (simp add: retryableMessage_def updateFailed_def lowerChar_def isDigit_def)

lemma isDigit_iff: "isDigit c \<longleftrightarrow> c \<in> set ''0123456789''"
proof
  assume "c \<in> set ''0123456789''"
  then show "isDigit c" by (auto simp: isDigit_def)
next
  assume d: "isDigit c"
  define n :: nat where "n = of_char c"
  have h: "\<And>e. n = of_char e \<Longrightarrow> c = e" by (simp add: n_def)
  from d have "48 \<le> n" "n \<le> 57" by (simp_all add: isDigit_def n_def)
  then have "n = 48 \<or> n = 49 \<or> n = 50 \<or> n = 51 \<or> n = 52 \<or> n = 53 \<or> n = 54
      \<or> n = 55 \<or> n = 56 \<or> n = 57" by arith
  then have "c = CHR ''0'' \<or> c = CHR ''1'' \<or> c = CHR ''2'' \<or> c = CHR ''3'' \<or> c = CHR ''4''
      \<or> c = CHR ''5'' \<or> c = CHR ''6'' \<or> c = CHR ''7'' \<or> c = CHR ''8'' \<or> c = CHR ''9''"
    using h[of "CHR ''0''"] h[of "CHR ''1''"] h[of "CHR ''2''"] h[of "CHR ''3''"]
      h[of "CHR ''4''"] h[of "CHR ''5''"] h[of "CHR ''6''"] h[of "CHR ''7''"]
      h[of "CHR ''8''"] h[of "CHR ''9''"]
    by simp blast
  then show "c \<in> set ''0123456789''" by simp
qed

lemma containsStr_lower_iff:
  "containsStr m (map lowerChar msg)
     \<longleftrightarrow> (\<exists>ps u ss. msg = ps @ u @ ss \<and> map lowerChar u = m)"
proof
  assume "containsStr m (map lowerChar msg)"
  then obtain ps' ss' where e: "map lowerChar msg = ps' @ (m @ ss')"
    unfolding containsStr_iff by blast
  from e[unfolded map_eq_append_conv]
  obtain ps r where r: "msg = ps @ r" "m @ ss' = map lowerChar r" by blast
  from r(2)[symmetric, unfolded map_eq_append_conv]
  obtain u ss where u: "r = u @ ss" "m = map lowerChar u" by blast
  have "msg = ps @ u @ ss \<and> map lowerChar u = m" using r(1) u by simp
  then show "\<exists>ps u ss. msg = ps @ u @ ss \<and> map lowerChar u = m" by blast
next
  assume "\<exists>ps u ss. msg = ps @ u @ ss \<and> map lowerChar u = m"
  then obtain ps u ss where "msg = ps @ u @ ss" "map lowerChar u = m" by blast
  then have "map lowerChar msg = map lowerChar ps @ m @ map lowerChar ss" by simp
  then show "containsStr m (map lowerChar msg)" unfolding containsStr_iff by blast
qed


lemma retryableMessage_iff:
  "retryableMessage msg \<longleftrightarrow>
     (\<exists>ps ss. msg = ps @ ''429'' @ ss)
     \<or> (\<exists>ps b c ss. msg = ps @ CHR ''5'' # b # c # ss
           \<and> b \<in> set ''0123456789'' \<and> c \<in> set ''0123456789'')
     \<or> (\<exists>ps u ss. msg = ps @ u @ ss \<and> map lowerChar u = ''rate limit'')
     \<or> (\<exists>ps u ss. msg = ps @ u @ ss \<and> map lowerChar u = ''quota'')
     \<or> (\<exists>ps u ss. msg = ps @ u @ ss \<and> map lowerChar u = ''timeout'')
     \<or> (\<exists>ps u ss. msg = ps @ u @ ss \<and> map lowerChar u = ''network'')"
  unfolding retryableMessage_def Let_def containsStr_lower_iff
  unfolding containsStr_iff contains5xx_iff isDigit_iff
  by (rule refl)

lemma retryable_examples:
  "retryableMessage ''Rate Limit Exceeded''" "retryableMessage ''Quota exceeded for user''"
  "retryableMessage ''Request TIMEOUT''" "retryableMessage ''A network error occurred''"
  "retryableMessage (updateFailed ''429'')" "\<not> retryableMessage ''unauthorized''"
  "\<not> retryableMessage (updateFailed ''403'')"
  by (simp_all add: retryableMessage_def updateFailed_def isDigit_def lowerChar_def
      char_of_eq_iff)

subsection \<open>Claim about saveWithRetry\<close>

text \<open>Three environments: a write that fails twice with status 503 and then succeeds, a
  write that always fails with status 404, and a write that fails once with status 429.
  The random number is always \<open>1/2\<close>.\<close>

definition failsTwice503 :: "nat \<Rightarrow> string option" where
  "failsTwice503 k = (if k < 2 then Some (updateFailed ''503'') else None)"

definition fails404 :: "nat \<Rightarrow> string option" where
  "fails404 k = Some (updateFailed ''404'')"

definition failsOnce429 :: "nat \<Rightarrow> string option" where
  "failsOnce429 k = (if k < 1 then Some (updateFailed ''429'') else None)"

text \<open>
  C7. \<open>saveWithRetry\<close> calls the write again after a failed call exactly when the message of
  the error matches the retryable set and fewer than 5 calls have been made. The retryable
  set is: messages that hold 429, or a 5 followed by two digits, or (in any case of the
  letters) \<open>rate limit\<close>, \<open>quota\<close>, \<open>timeout\<close> or \<open>network\<close>; among the failures by HTTP
  status these are status 429 and the statuses 5xx, and no other. A run makes
  \<open>k + 1\<close> calls, where call \<open>k\<close> is the first that succeeds, or fails with an error that
  is not retryable, or is the fifth; such a \<open>k\<close> below 5 always exists. It waits
  \<open>min(8000, 400 \<cdot> 2^(attempt-1)) \<cdot> (0.5 + random)\<close> milliseconds after failed call number
  \<open>attempt\<close>. A write that fails twice with 503 and then succeeds is called exactly 3
  times and the task ends with status \<open>Idle\<close>; an error that is not retryable is rethrown
  after the first call, without a wait.
\<close>

theorem saveWithRetry_retries:
  "(retried upd k = (\<exists>msg. upd k = Some msg \<and> retryableMessage msg \<and> k + 1 < 5))
   \<and> (retryableMessage msg \<longleftrightarrow>
        (\<exists>ps ss. msg = ps @ ''429'' @ ss)
        \<or> (\<exists>ps b c ss. msg = ps @ CHR ''5'' # b # c # ss
              \<and> b \<in> set ''0123456789'' \<and> c \<in> set ''0123456789'')
        \<or> (\<exists>ps u ss. msg = ps @ u @ ss \<and> map lowerChar u = ''rate limit'')
        \<or> (\<exists>ps u ss. msg = ps @ u @ ss \<and> map lowerChar u = ''quota'')
        \<or> (\<exists>ps u ss. msg = ps @ u @ ss \<and> map lowerChar u = ''timeout'')
        \<or> (\<exists>ps u ss. msg = ps @ u @ ss \<and> map lowerChar u = ''network''))
   \<and> (retryableMessage (updateFailed [s1, s2, s3]) \<longleftrightarrow>
        [s1, s2, s3] = ''429''
        \<or> (s1 = CHR ''5'' \<and> s2 \<in> set ''0123456789'' \<and> s3 \<in> set ''0123456789''))
   \<and> (\<exists>k < 5. (\<forall>j < k. retried upd j) \<and> \<not> retried upd k)
   \<and> ((\<forall>j < k. retried upd j) \<and> \<not> retried upd k \<longrightarrow>
        saveWithRetry upd rnd
          = (endOf (upd k), k + 1,
             map (\<lambda>j. min 8000 (400 * 2 ^ ((j + 1) - 1)) * (0.5 + rnd j)) [0..<k]))
   \<and> (upd 0 = Some (updateFailed ''503'') \<and> upd 1 = Some (updateFailed ''503'') \<and> upd 2 = None \<longrightarrow>
        saveTask False (Inr fid) upd rnd = (Idle, 3))
   \<and> (upd 0 = Some msg \<and> \<not> retryableMessage msg \<longrightarrow> saveWithRetry upd rnd = (Inl msg, 1, []))"
proof -
  have c1: "retried upd k = (\<exists>msg. upd k = Some msg \<and> retryableMessage msg \<and> k + 1 < 5)"
    by (auto simp: retried_def shouldRetry_def maxAttempts_def split: option.splits)
  have c2: "\<exists>k < 5. (\<forall>j < k. retried upd j) \<and> \<not> retried upd k"
    using run_ends[of upd] by (simp add: maxAttempts_def)
  have c3: "(\<forall>j < k. retried upd j) \<and> \<not> retried upd k \<longrightarrow>
     saveWithRetry upd rnd
       = (endOf (upd k), k + 1,
          map (\<lambda>j. min 8000 (400 * 2 ^ ((j + 1) - 1)) * (0.5 + rnd j)) [0..<k])"
    using saveWithRetry_run[of k upd rnd] by (simp add: backoff_def)
  have c4: "upd 0 = Some (updateFailed ''503'') \<and> upd 1 = Some (updateFailed ''503'') \<and> upd 2 = None \<longrightarrow>
     saveTask False (Inr fid) upd rnd = (Idle, 3)"
  proof
    assume a: "upd 0 = Some (updateFailed ''503'') \<and> upd 1 = Some (updateFailed ''503'') \<and> upd 2 = None"
    have r: "\<forall>j < 2. retried upd j"
    proof (intro allI impI)
      fix j :: nat
      assume "j < 2"
      then have "j = 0 \<or> j = 1" by auto
      with a show "retried upd j"
        by (auto simp: retried_def shouldRetry_def maxAttempts_def retryable_503)
    qed
    have n: "\<not> retried upd 2" using a by (simp add: retried_def)
    from saveWithRetry_run[OF r n, of rnd] a
    show "saveTask False (Inr fid) upd rnd = (Idle, 3)"
      by (simp add: saveTask_def endOf_def)
  qed
  have c5: "upd 0 = Some msg \<and> \<not> retryableMessage msg \<longrightarrow> saveWithRetry upd rnd = (Inl msg, 1, [])"
  proof
    assume a: "upd 0 = Some msg \<and> \<not> retryableMessage msg"
    then have n: "\<not> retried upd 0" by (simp add: retried_def shouldRetry_def)
    have r: "\<forall>j < 0. retried upd j" by simp
    from saveWithRetry_run[OF r n, of rnd] a
    show "saveWithRetry upd rnd = (Inl msg, 1, [])" by (simp add: endOf_def)
  qed
  have c6: "retryableMessage msg \<longleftrightarrow>
        (\<exists>ps ss. msg = ps @ ''429'' @ ss)
        \<or> (\<exists>ps b c ss. msg = ps @ CHR ''5'' # b # c # ss
              \<and> b \<in> set ''0123456789'' \<and> c \<in> set ''0123456789'')
        \<or> (\<exists>ps u ss. msg = ps @ u @ ss \<and> map lowerChar u = ''rate limit'')
        \<or> (\<exists>ps u ss. msg = ps @ u @ ss \<and> map lowerChar u = ''quota'')
        \<or> (\<exists>ps u ss. msg = ps @ u @ ss \<and> map lowerChar u = ''timeout'')
        \<or> (\<exists>ps u ss. msg = ps @ u @ ss \<and> map lowerChar u = ''network'')"
    by (rule retryableMessage_iff)
  have c7: "retryableMessage (updateFailed [s1, s2, s3]) \<longleftrightarrow>
        [s1, s2, s3] = ''429''
        \<or> (s1 = CHR ''5'' \<and> s2 \<in> set ''0123456789'' \<and> s3 \<in> set ''0123456789'')"
    unfolding isDigit_iff[symmetric] by (rule status_retryable)
  show ?thesis
    by (intro conjI) (rule c1, rule c6, rule c7, rule c2, rule c3, rule c4, rule c5)
qed

theorem saveWithRetry_retries_witness:
  "saveWithRetry failsTwice503 (\<lambda>k. 1 / 2) = (Inr (), 3, [400, 800])
   \<and> saveTask False (Inr ''file1'') failsTwice503 (\<lambda>k. 1 / 2) = (Idle, 3)
   \<and> saveWithRetry fails404 (\<lambda>k. 1 / 2) = (Inl (updateFailed ''404''), 1, [])
   \<and> saveWithRetry failsOnce429 (\<lambda>k. 1 / 2) = (Inr (), 2, [400])
   \<and> retryableMessage ''Rate Limit Exceeded'' \<and> retryableMessage ''Quota exceeded for user''
   \<and> retryableMessage ''Request TIMEOUT'' \<and> retryableMessage ''A network error occurred''
   \<and> \<not> retryableMessage ''unauthorized'' \<and> \<not> retryableMessage (updateFailed ''403'')"
proof -
  have r0: "retried failsTwice503 0" and r1: "retried failsTwice503 1"
    and n2: "\<not> retried failsTwice503 2"
    by (simp_all add: retried_def failsTwice503_def shouldRetry_def maxAttempts_def
        retryable_503)
  have r: "\<forall>j < 2. retried failsTwice503 j"
  proof (intro allI impI)
    fix j :: nat
    assume "j < 2"
    then have "j = 0 \<or> j = 1" by auto
    with r0 r1 show "retried failsTwice503 j" by auto
  qed
  have u: "[0..<2] = [0, Suc 0]" by (simp add: upt_rec)
  have a: "saveWithRetry failsTwice503 (\<lambda>k. 1 / 2) = (Inr (), 3, [400, 800])"
    using saveWithRetry_retries[where upd = failsTwice503 and k = 2 and rnd = "\<lambda>k. 1 / 2"]
      r n2
    by (simp add: endOf_def failsTwice503_def u)
  have b: "saveTask False (Inr ''file1'') failsTwice503 (\<lambda>k. 1 / 2) = (Idle, 3)"
    using saveWithRetry_retries[where upd = failsTwice503 and fid = "''file1''"
        and rnd = "\<lambda>k. 1 / 2"]
    by (simp add: failsTwice503_def)
  have c: "saveWithRetry fails404 (\<lambda>k. 1 / 2) = (Inl (updateFailed ''404''), 1, [])"
    using saveWithRetry_retries[where upd = fails404 and msg = "updateFailed ''404''"
        and rnd = "\<lambda>k. 1 / 2"]
      not_retryable_404
    by (simp add: fails404_def)
  have q0: "retried failsOnce429 0" and q1: "\<not> retried failsOnce429 1"
    by (simp_all add: retried_def failsOnce429_def shouldRetry_def maxAttempts_def
        retryable_examples)
  have q: "\<forall>j < 1. retried failsOnce429 j" using q0 by simp
  have d: "saveWithRetry failsOnce429 (\<lambda>k. 1 / 2) = (Inr (), 2, [400])"
    using saveWithRetry_retries[where upd = failsOnce429 and k = 1 and rnd = "\<lambda>k. 1 / 2"]
      q q1
    by (simp add: endOf_def failsOnce429_def)
  from a b c d retryable_examples show ?thesis by simp
qed

section \<open>Debounced saving (googleAPI.js, useGoogleDriveState)\<close>

text \<open>
  The hook runs on one event loop, so its behaviour is a state machine over the refs of
  the hook. \<open>debounce\<close> says that a debounce timer is pending (\<^verbatim>\<open>debounceRef\<close> holds a
  timer that has not fired and was not cleared); \<open>written\<close> logs the argument of every
  call of \<^verbatim>\<open>writeAppDataConfig\<close>, in order. Time is not measured: a debounce window is
  the stretch between setting the timer and its firing, and what happens within one
  window is a sequence of calls with no firing in between.
\<close>

record 'a driveState =
  mounted :: bool
  loaded :: bool
  saveRequestedWhileLoading :: bool
  debounce :: bool
  saving :: bool
  queued :: bool
  latest :: 'a
  status :: status
  written :: "'a list"









subsection \<open>Coalescing\<close>





section \<open>Recomputing depths (the depth effect of Home)\<close>

text \<open>
  The inner loop \<^verbatim>\<open>for (const cid of children) { if (!prev[cid]) continue; nd = d + 1;
  cur = targetDepth.get(cid); if (cur === undefined || nd < cur) { targetDepth.set(cid, nd);
  q.push(cid) } }\<close>. \<open>targetDepth\<close> is the \<^verbatim>\<open>Map\<close>, \<open>q\<close> the queue with its head first.
\<close>

fun relaxChildren ::
  "graph \<Rightarrow> nat \<Rightarrow> ident list \<Rightarrow> (ident \<rightharpoonup> nat) \<times> ident list
     \<Rightarrow> (ident \<rightharpoonup> nat) \<times> ident list" where
  "relaxChildren prev d [] (targetDepth, q) = (targetDepth, q)"
| "relaxChildren prev d (cid # cs) (targetDepth, q) =
     (if map_of prev cid = None then relaxChildren prev d cs (targetDepth, q)
      else
        let nd = d + 1 in
        if (case targetDepth cid of None \<Rightarrow> True | Some cur \<Rightarrow> nd < cur)
        then relaxChildren prev d cs (targetDepth(cid \<mapsto> nd), q @ [cid])
        else relaxChildren prev d cs (targetDepth, q))"

text \<open>The progress of the search: the keys without a depth, and the sum of the depths
  given so far. Each \<^verbatim>\<open>targetDepth.set\<close> lowers the pair in the lexicographic order.\<close>

definition unsetKeys :: "graph \<Rightarrow> (ident \<rightharpoonup> nat) \<Rightarrow> nat" where
  "unsetKeys prev td = card {k \<in> set (map fst prev). td k = None}"

definition depthSum :: "graph \<Rightarrow> (ident \<rightharpoonup> nat) \<Rightarrow> nat" where
  "depthSum prev td = (\<Sum>k \<in> set (map fst prev). case td k of None \<Rightarrow> 0 | Some v \<Rightarrow> v)"

definition progress :: "graph \<Rightarrow> (ident \<rightharpoonup> nat) \<Rightarrow> nat \<times> nat" where
  "progress prev td = (unsetKeys prev td, depthSum prev td)"

lemma map_of_key: "map_of prev k \<noteq> None \<Longrightarrow> k \<in> set (map fst prev)"
  by (metis domIff dom_map_of_conv_image_fst set_map)

lemma progress_set_new:
  assumes "map_of prev c \<noteq> None" and "td c = None"
  shows "unsetKeys prev (td(c \<mapsto> x)) < unsetKeys prev td"
proof -
  let ?K = "set (map fst prev)"
  have c: "c \<in> {k \<in> ?K. td k = None}" using assms map_of_key by simp
  have eq: "{k \<in> ?K. (td(c \<mapsto> x)) k = None} = {k \<in> ?K. td k = None} - {c}" by auto
  have fin: "finite {k \<in> ?K. td k = None}" by simp
  have "card ({k \<in> ?K. td k = None} - {c}) < card {k \<in> ?K. td k = None}"
    using fin c by (rule card_Diff1_less)
  then show ?thesis unfolding unsetKeys_def eq .
qed

lemma progress_set_lower:
  assumes "map_of prev c \<noteq> None" and "td c = Some cur" and "x < cur"
  shows "unsetKeys prev (td(c \<mapsto> x)) = unsetKeys prev td"
    and "depthSum prev (td(c \<mapsto> x)) < depthSum prev td"
proof -
  let ?K = "set (map fst prev)"
  let ?f = "\<lambda>t k. case t k of None \<Rightarrow> 0 | Some v \<Rightarrow> (v::nat)"
  have c: "c \<in> ?K" using assms(1) by (rule map_of_key)
  have "{k \<in> ?K. (td(c \<mapsto> x)) k = None} = {k \<in> ?K. td k = None}"
    using assms(2) by auto
  then show "unsetKeys prev (td(c \<mapsto> x)) = unsetKeys prev td" by (simp add: unsetKeys_def)
  have a: "sum (?f (td(c \<mapsto> x))) ?K = x + sum (?f (td(c \<mapsto> x))) (?K - {c})"
    using c by (simp add: sum.remove)
  have b: "sum (?f td) ?K = cur + sum (?f td) (?K - {c})"
    using c assms(2) by (simp add: sum.remove)
  have "sum (?f (td(c \<mapsto> x))) (?K - {c}) = sum (?f td) (?K - {c})"
    by (rule sum.cong) auto
  with a b assms(3) show "depthSum prev (td(c \<mapsto> x)) < depthSum prev td"
    by (simp add: depthSum_def)
qed

lemma relaxChildren_skip:
  assumes "map_of prev cid = None \<or> (\<exists>cur. td cid = Some cur \<and> \<not> d + 1 < cur)"
  shows "relaxChildren prev d (cid # cs) (td, q) = relaxChildren prev d cs (td, q)"
  using assms by (auto simp: Let_def)

lemma relaxChildren_set:
  assumes "map_of prev cid \<noteq> None"
    and "td cid = None \<or> (\<exists>cur. td cid = Some cur \<and> d + 1 < cur)"
  shows "relaxChildren prev d (cid # cs) (td, q)
       = relaxChildren prev d cs (td(cid \<mapsto> d + 1), q @ [cid])"
  using assms by (auto simp: Let_def)

lemma relaxChildren_progress:
  "relaxChildren prev d cs (td, q) = (td', q') \<Longrightarrow>
     (td' = td \<and> q' = q)
     \<or> (progress prev td', progress prev td) \<in> less_than <*lex*> less_than"
proof (induction cs arbitrary: td q)
  case Nil
  then show ?case by simp
next
  case (Cons cid cs)
  have tr: "trans (less_than <*lex*> less_than)"
    by (intro trans_lex_prod trans_less_than)
  show ?case
  proof (cases "map_of prev cid \<noteq> None
      \<and> (td cid = None \<or> (\<exists>cur. td cid = Some cur \<and> d + 1 < cur))")
    case False
    then have "map_of prev cid = None \<or> (\<exists>cur. td cid = Some cur \<and> \<not> d + 1 < cur)"
      by (cases "td cid") auto
    then have "relaxChildren prev d (cid # cs) (td, q) = relaxChildren prev d cs (td, q)"
      by (rule relaxChildren_skip)
    with Cons.prems have "relaxChildren prev d cs (td, q) = (td', q')" by (simp only:)
    then show ?thesis by (rule Cons.IH)
  next
    case True
    then have "relaxChildren prev d (cid # cs) (td, q)
        = relaxChildren prev d cs (td(cid \<mapsto> d + 1), q @ [cid])"
      by (intro relaxChildren_set) blast+
    with Cons.prems
    have rec: "relaxChildren prev d cs (td(cid \<mapsto> d + 1), q @ [cid]) = (td', q')"
      by (simp only:)
    have one: "(progress prev (td(cid \<mapsto> d + 1)), progress prev td)
        \<in> less_than <*lex*> less_than"
    proof (cases "td cid")
      case None
      with True have "unsetKeys prev (td(cid \<mapsto> d + 1)) < unsetKeys prev td"
        by (intro progress_set_new) blast+
      then show ?thesis by (simp add: progress_def)
    next
      case (Some cur)
      with True have lt: "d + 1 < cur" by simp
      from True have k: "map_of prev cid \<noteq> None" by blast
      have "unsetKeys prev (td(cid \<mapsto> d + 1)) = unsetKeys prev td"
        and "depthSum prev (td(cid \<mapsto> d + 1)) < depthSum prev td"
        using progress_set_lower[of prev cid td cur "d + 1"] k Some lt by blast+
      then show ?thesis by (simp add: progress_def)
    qed
    from Cons.IH[OF rec] show ?thesis
    proof
      assume a: "td' = td(cid \<mapsto> d + 1) \<and> q' = q @ [cid]"
      have "(progress prev td', progress prev td) \<in> less_than <*lex*> less_than"
        unfolding conjunct1[OF a] by (rule one)
      then show ?thesis by (rule disjI2)
    next
      assume b: "(progress prev td', progress prev (td(cid \<mapsto> d + 1)))
          \<in> less_than <*lex*> less_than"
      have "(progress prev td', progress prev td) \<in> less_than <*lex*> less_than"
        by (rule transD[OF tr b one])
      then show ?thesis by (rule disjI2)
    qed
  qed
qed

text \<open>
  The outer loop \<^verbatim>\<open>while (q.length) { id = q.shift(); d = targetDepth.get(id); .. }\<close>.
  Every id in the queue was given a depth when it was pushed (lemma \<open>bfsInv\<close> below), so
  \<^verbatim>\<open>targetDepth.get(id)\<close> is never \<^verbatim>\<open>undefined\<close>; the branch for that case only makes the
  function total.
\<close>

function bfsDepths :: "graph \<Rightarrow> (ident \<rightharpoonup> nat) \<Rightarrow> ident list \<Rightarrow> (ident \<rightharpoonup> nat)" where
  "bfsDepths prev targetDepth [] = targetDepth"
| "bfsDepths prev targetDepth (i # q) =
     (case targetDepth i of
        None \<Rightarrow> bfsDepths prev targetDepth q
      | Some d \<Rightarrow>
          (case relaxChildren prev d (kidsOf prev i) (targetDepth, q) of
             (targetDepth', q') \<Rightarrow> bfsDepths prev targetDepth' q'))"
  by pat_completeness auto

termination
proof (relation "inv_image ((less_than <*lex*> less_than) <*lex*> less_than)
    (\<lambda>(prev, td, q). (progress prev td, length q))", goal_cases)
  case 1
  show ?case by (intro wf_inv_image wf_lex_prod wf_less_than)
next
  case (2 prev targetDepth i q)
  then show ?case by simp
next
  case (3 prev targetDepth i q d targetDepth' q')
  have "relaxChildren prev d (kidsOf prev i) (targetDepth, q) = (targetDepth', q')"
    using 3(2) by (rule sym)
  from relaxChildren_progress[OF this] show ?case
  proof
    assume "targetDepth' = targetDepth \<and> q' = q"
    then show ?thesis by simp
  next
    assume "(progress prev targetDepth', progress prev targetDepth)
        \<in> less_than <*lex*> less_than"
    then have "((progress prev targetDepth', length q'), (progress prev targetDepth, length (i # q)))
        \<in> (less_than <*lex*> less_than) <*lex*> less_than"
      by (rule iffD2[OF in_lex_prod, OF disjI1])
    then show ?thesis by (simp only: in_inv_image prod.case)
  qed
qed

declare bfsDepths.simps [simp del]

text \<open>
  The effect itself: the guard \<^verbatim>\<open>if (!prev || !prev.root) return prev\<close>, the search from
  \<open>root\<close> at depth 0, and the pass that rewrites the nodes whose stored depth differs
  (\<^verbatim>\<open>changed ? next : prev\<close> is \<open>next\<close> in both cases, as a list of entries).
\<close>

definition setDepth :: "(ident \<rightharpoonup> nat) \<Rightarrow> ident \<Rightarrow> node \<Rightarrow> node" where
  "setDepth targetDepth i n =
     (case targetDepth i of
        None \<Rightarrow> n
      | Some want \<Rightarrow> if depth n \<noteq> Some (int want) then n\<lparr>depth := Some (int want)\<rparr> else n)"

definition recomputeDepths :: "graph \<Rightarrow> graph" where
  "recomputeDepths prev =
     (if map_of prev ''root'' = None then prev
      else
        let targetDepth = bfsDepths prev [''root'' \<mapsto> 0] [''root'']
        in map (\<lambda>(i, n). (i, setDepth targetDepth i n)) prev)"

subsection \<open>What one pass over the children does\<close>

declare relaxChildren.simps(2) [simp del]

lemma relaxChildren_Cons_cases:
  assumes "relaxChildren prev d (cid # cs) (td, q) = (td', q')"
  obtains (skip) "relaxChildren prev d cs (td, q) = (td', q')"
      and "map_of prev cid = None \<or> (\<exists>cur. td cid = Some cur \<and> cur \<le> d + 1)"
    | (set) "relaxChildren prev d cs (td(cid \<mapsto> d + 1), q @ [cid]) = (td', q')"
      and "map_of prev cid \<noteq> None"
      and "td cid = None \<or> (\<exists>cur. td cid = Some cur \<and> d + 1 < cur)"
proof (cases "map_of prev cid \<noteq> None
    \<and> (td cid = None \<or> (\<exists>cur. td cid = Some cur \<and> d + 1 < cur))")
  case True
  then have "relaxChildren prev d (cid # cs) (td, q)
      = relaxChildren prev d cs (td(cid \<mapsto> d + 1), q @ [cid])"
    by (intro relaxChildren_set) blast+
  with assms have "relaxChildren prev d cs (td(cid \<mapsto> d + 1), q @ [cid]) = (td', q')"
    by (simp only:)
  with True show ?thesis by (intro set) blast+
next
  case False
  then have c: "map_of prev cid = None \<or> (\<exists>cur. td cid = Some cur \<and> \<not> d + 1 < cur)"
    by (cases "td cid") auto
  then have "relaxChildren prev d (cid # cs) (td, q) = relaxChildren prev d cs (td, q)"
    by (rule relaxChildren_skip)
  with assms have r: "relaxChildren prev d cs (td, q) = (td', q')" by (simp only:)
  from c have "map_of prev cid = None \<or> (\<exists>cur. td cid = Some cur \<and> cur \<le> d + 1)"
    by auto
  with r show ?thesis by (rule skip)
qed

lemma relaxChildren_queue_grows:
  "relaxChildren prev d cs (td, q) = (td', q') \<Longrightarrow> set q \<subseteq> set q'"
proof (induction cs arbitrary: td q)
  case Nil
  then show ?case by simp
next
  case (Cons cid cs)
  from Cons.prems show ?case
  proof (cases rule: relaxChildren_Cons_cases)
    case skip
    then show ?thesis using Cons.IH by blast
  next
    case set
    from Cons.IH[OF set(1)] show ?thesis by simp
  qed
qed

lemma relaxChildren_lowers:
  "relaxChildren prev d cs (td, q) = (td', q') \<Longrightarrow> td v = Some x
     \<Longrightarrow> \<exists>x'. td' v = Some x' \<and> x' \<le> x"
proof (induction cs arbitrary: td q x)
  case Nil
  then show ?case by simp
next
  case (Cons cid cs)
  from Cons.prems(1) show ?case
  proof (cases rule: relaxChildren_Cons_cases)
    case skip
    from Cons.IH[OF skip(1) Cons.prems(2)] show ?thesis .
  next
    case set
    show ?thesis
    proof (cases "v = cid")
      case True
      with set(3) Cons.prems(2) have le: "d + 1 \<le> x" by auto
      have "(td(cid \<mapsto> d + 1)) v = Some (d + 1)" using True by simp
      from Cons.IH[OF set(1) this] obtain x' where "td' v = Some x'" "x' \<le> d + 1" by blast
      with le show ?thesis by auto
    next
      case False
      then have "(td(cid \<mapsto> d + 1)) v = Some x" using Cons.prems(2) by simp
      from Cons.IH[OF set(1) this] show ?thesis .
    qed
  qed
qed

lemma relaxChildren_values:
  "relaxChildren prev d cs (td, q) = (td', q') \<Longrightarrow> td' v = Some x
     \<Longrightarrow> td v = Some x \<or> (v \<in> set cs \<and> map_of prev v \<noteq> None \<and> x = d + 1)"
proof (induction cs arbitrary: td q)
  case Nil
  then show ?case by simp
next
  case (Cons cid cs)
  from Cons.prems(1) show ?case
  proof (cases rule: relaxChildren_Cons_cases)
    case skip
    from Cons.IH[OF skip(1) Cons.prems(2)] show ?thesis by auto
  next
    case set
    from Cons.IH[OF set(1) Cons.prems(2)]
    have "(td(cid \<mapsto> d + 1)) v = Some x
        \<or> (v \<in> set cs \<and> map_of prev v \<noteq> None \<and> x = d + 1)" .
    then show ?thesis
    proof
      assume a: "(td(cid \<mapsto> d + 1)) v = Some x"
      show ?thesis
      proof (cases "v = cid")
        case True
        with a set(2) show ?thesis by simp
      next
        case False
        with a show ?thesis by simp
      qed
    next
      assume "v \<in> set cs \<and> map_of prev v \<noteq> None \<and> x = d + 1"
      then show ?thesis by simp
    qed
  qed
qed

lemma relaxChildren_children:
  "relaxChildren prev d cs (td, q) = (td', q') \<Longrightarrow> v \<in> set cs \<Longrightarrow> map_of prev v \<noteq> None
     \<Longrightarrow> \<exists>x. td' v = Some x \<and> x \<le> d + 1"
proof (induction cs arbitrary: td q)
  case Nil
  then show ?case by simp
next
  case (Cons cid cs)
  from Cons.prems(1) show ?case
  proof (cases rule: relaxChildren_Cons_cases)
    case skip
    show ?thesis
    proof (cases "v \<in> set cs")
      case True
      from Cons.IH[OF skip(1) True Cons.prems(3)] show ?thesis .
    next
      case False
      with Cons.prems(2) have v: "v = cid" by simp
      with skip(2) Cons.prems(3) obtain cur where cur: "td v = Some cur" "cur \<le> d + 1"
        by auto
      from relaxChildren_lowers[OF skip(1) cur(1)] cur(2) show ?thesis by auto
    qed
  next
    case set
    show ?thesis
    proof (cases "v \<in> set cs")
      case True
      from Cons.IH[OF set(1) True Cons.prems(3)] show ?thesis .
    next
      case False
      with Cons.prems(2) have "v = cid" by simp
      then have "(td(cid \<mapsto> d + 1)) v = Some (d + 1)" by simp
      from relaxChildren_lowers[OF set(1) this] show ?thesis .
    qed
  qed
qed

lemma relaxChildren_changed_queued:
  "relaxChildren prev d cs (td, q) = (td', q') \<Longrightarrow> td' v \<noteq> td v \<Longrightarrow> v \<in> set q'"
proof (induction cs arbitrary: td q)
  case Nil
  then show ?case by simp
next
  case (Cons cid cs)
  from Cons.prems(1) show ?case
  proof (cases rule: relaxChildren_Cons_cases)
    case skip
    from Cons.IH[OF skip(1) Cons.prems(2)] show ?thesis .
  next
    case set
    show ?thesis
    proof (cases "td' v \<noteq> (td(cid \<mapsto> d + 1)) v")
      case True
      from Cons.IH[OF set(1) True] show ?thesis .
    next
      case False
      with Cons.prems(2) have "v = cid" by (cases "v = cid") auto
      then have "v \<in> set (q @ [cid])" by simp
      with relaxChildren_queue_grows[OF set(1)] show ?thesis by blast
    qed
  qed
qed

lemma relaxChildren_queued_set:
  "relaxChildren prev d cs (td, q) = (td', q') \<Longrightarrow> v \<in> set q' \<Longrightarrow> v \<in> set q \<or> td' v \<noteq> None"
proof (induction cs arbitrary: td q)
  case Nil
  then show ?case by simp
next
  case (Cons cid cs)
  from Cons.prems(1) show ?case
  proof (cases rule: relaxChildren_Cons_cases)
    case skip
    from Cons.IH[OF skip(1) Cons.prems(2)] show ?thesis .
  next
    case set
    from Cons.IH[OF set(1) Cons.prems(2)] have "v \<in> set (q @ [cid]) \<or> td' v \<noteq> None" .
    then show ?thesis
    proof
      assume "v \<in> set (q @ [cid])"
      then have "v \<in> set q \<or> v = cid" by auto
      then show ?thesis
      proof
        assume "v \<in> set q"
        then show ?thesis by simp
      next
        assume "v = cid"
        then have "(td(cid \<mapsto> d + 1)) v = Some (d + 1)" by simp
        from relaxChildren_lowers[OF set(1) this] show ?thesis by auto
      qed
    next
      assume "td' v \<noteq> None"
      then show ?thesis by simp
    qed
  qed
qed

subsection \<open>The invariant of the search\<close>

text \<open>The edges the search follows: a child id that has no node is skipped.\<close>

definition keyRel :: "graph \<Rightarrow> (ident \<times> ident) set" where
  "keyRel g = {(a, b). b \<in> set (kidsOf g a) \<and> map_of g b \<noteq> None}"

text \<open>
  Every depth given so far is the length of a path from the root; the root has depth 0;
  a node that has a depth and is not waiting in the queue has all its children within
  one step of it; and every id in the queue has a depth.
\<close>

definition bfsInv :: "graph \<Rightarrow> (ident \<rightharpoonup> nat) \<Rightarrow> ident list \<Rightarrow> bool" where
  "bfsInv g td q \<longleftrightarrow>
     td ''root'' = Some 0
     \<and> (\<forall>v x. td v = Some x \<longrightarrow> (''root'', v) \<in> keyRel g ^^ x)
     \<and> (\<forall>v x c. td v = Some x \<and> v \<notin> set q \<and> (v, c) \<in> keyRel g
           \<longrightarrow> (\<exists>y. td c = Some y \<and> y \<le> x + 1))
     \<and> (\<forall>v. v \<in> set q \<longrightarrow> td v \<noteq> None)"

lemma bfsInv_root: "bfsInv g td q \<Longrightarrow> td ''root'' = Some 0"
  by (simp add: bfsInv_def)

lemma bfsInv_path: "bfsInv g td q \<Longrightarrow> td v = Some x \<Longrightarrow> (''root'', v) \<in> keyRel g ^^ x"
  by (simp add: bfsInv_def)

lemma bfsInv_relaxed:
  "bfsInv g td q \<Longrightarrow> td v = Some x \<Longrightarrow> v \<notin> set q \<Longrightarrow> (v, c) \<in> keyRel g
     \<Longrightarrow> \<exists>y. td c = Some y \<and> y \<le> x + 1"
  unfolding bfsInv_def by blast

lemma bfsInv_queue: "bfsInv g td q \<Longrightarrow> v \<in> set q \<Longrightarrow> td v \<noteq> None"
  by (simp add: bfsInv_def)

lemma bfsInv_init: "bfsInv g [''root'' \<mapsto> 0] [''root'']"
  by (auto simp: bfsInv_def split: if_splits)

lemma bfsInv_step:
  assumes inv: "bfsInv g td (i # q)" and d: "td i = Some d"
    and r: "relaxChildren g d (kidsOf g i) (td, q) = (td', q')"
  shows "bfsInv g td' q'"
  unfolding bfsInv_def
proof (intro conjI allI impI)
  from relaxChildren_lowers[OF r bfsInv_root[OF inv]]
  show "td' ''root'' = Some 0" by simp
next
  fix v x
  assume a: "td' v = Some x"
  from relaxChildren_values[OF r a]
  show "(''root'', v) \<in> keyRel g ^^ x"
  proof
    assume "td v = Some x"
    with inv show ?thesis by (rule bfsInv_path)
  next
    assume b: "v \<in> set (kidsOf g i) \<and> map_of g v \<noteq> None \<and> x = d + 1"
    then have e: "(i, v) \<in> keyRel g" by (simp add: keyRel_def)
    have "(''root'', i) \<in> keyRel g ^^ d" using inv d by (rule bfsInv_path)
    then have "(''root'', v) \<in> keyRel g ^^ Suc d" using e by (rule relpow_Suc_I)
    with b show ?thesis by simp
  qed
next
  fix v x c
  assume a: "td' v = Some x \<and> v \<notin> set q' \<and> (v, c) \<in> keyRel g"
  then have same: "td' v = td v"
    using relaxChildren_changed_queued[OF r, of v] by blast
  from a have nq: "v \<notin> set q" using relaxChildren_queue_grows[OF r] by blast
  show "\<exists>y. td' c = Some y \<and> y \<le> x + 1"
  proof (cases "v = i")
    case True
    with a same d have x: "x = d" by simp
    from a True have "c \<in> set (kidsOf g i)" "map_of g c \<noteq> None"
      by (simp_all add: keyRel_def)
    from relaxChildren_children[OF r this] x show ?thesis by simp
  next
    case False
    with nq have "v \<notin> set (i # q)" by simp
    moreover have "td v = Some x" using a same by simp
    moreover have "(v, c) \<in> keyRel g" using a by simp
    ultimately obtain y where y: "td c = Some y" "y \<le> x + 1"
      using bfsInv_relaxed[OF inv] by blast
    from relaxChildren_lowers[OF r y(1)] y(2) show ?thesis by auto
  qed
next
  fix v
  assume "v \<in> set q'"
  from relaxChildren_queued_set[OF r this] show "td' v \<noteq> None"
  proof
    assume "v \<in> set q"
    then have "td v \<noteq> None" using bfsInv_queue[OF inv, of v] by simp
    then obtain x where "td v = Some x" by auto
    from relaxChildren_lowers[OF r this] show ?thesis by auto
  next
    assume "td' v \<noteq> None"
    then show ?thesis .
  qed
qed

lemma bfsDepths_inv: "bfsInv g td q \<Longrightarrow> bfsInv g (bfsDepths g td q) []"
proof (induction g td q rule: bfsDepths.induct)
  case (1 prev targetDepth)
  then show ?case by (simp add: bfsDepths.simps)
next
  case (2 prev targetDepth i q)
  have "targetDepth i \<noteq> None" using bfsInv_queue[OF "2.prems", of i] by simp
  then obtain d where d: "targetDepth i = Some d" by auto
  obtain td' q' where r: "relaxChildren prev d (kidsOf prev i) (targetDepth, q) = (td', q')"
    by (cases "relaxChildren prev d (kidsOf prev i) (targetDepth, q)")
  have step: "bfsInv prev td' q'" using "2.prems" d r by (rule bfsInv_step)
  have "bfsInv prev (bfsDepths prev td' q') []"
    using "2.IH"(2)[OF d r[symmetric] step] .
  moreover have "bfsDepths prev targetDepth (i # q) = bfsDepths prev td' q'"
    using d r by (simp add: bfsDepths.simps)
  ultimately show ?case by simp
qed

lemma bfsInv_complete:
  "bfsInv g td [] \<Longrightarrow> (''root'', v) \<in> keyRel g ^^ n \<Longrightarrow> \<exists>x. td v = Some x \<and> x \<le> n"
proof (induction n arbitrary: v)
  case 0
  then have "v = ''root''" by simp
  with bfsInv_root[OF "0.prems"(1)] show ?case by simp
next
  case (Suc n)
  from Suc.prems(2) obtain y where y: "(''root'', y) \<in> keyRel g ^^ n" "(y, v) \<in> keyRel g"
    by (rule relpow_Suc_E)
  from Suc.IH[OF Suc.prems(1) y(1)] obtain x where x: "td y = Some x" "x \<le> n" by blast
  have "y \<notin> set []" by simp
  from bfsInv_relaxed[OF Suc.prems(1) x(1) this y(2)]
  obtain z where "td v = Some z" "z \<le> x + 1" by blast
  with x(2) show ?case by auto
qed

text \<open>The depths the effect computes.\<close>

definition finalDepths :: "graph \<Rightarrow> (ident \<rightharpoonup> nat)" where
  "finalDepths g = bfsDepths g [''root'' \<mapsto> 0] [''root'']"

lemma finalDepths_inv: "bfsInv g (finalDepths g) []"
  unfolding finalDepths_def by (rule bfsDepths_inv) (rule bfsInv_init)

lemma finalDepths_minimal:
  assumes "finalDepths g v = Some x"
  shows "(''root'', v) \<in> keyRel g ^^ x"
    and "(''root'', v) \<in> keyRel g ^^ m \<Longrightarrow> x \<le> m"
proof -
  show "(''root'', v) \<in> keyRel g ^^ x"
    using finalDepths_inv assms by (rule bfsInv_path)
  assume "(''root'', v) \<in> keyRel g ^^ m"
  from bfsInv_complete[OF finalDepths_inv this] assms show "x \<le> m" by auto
qed

lemma finalDepths_reached:
  "(''root'', v) \<in> (keyRel g)\<^sup>* \<Longrightarrow> \<exists>x. finalDepths g v = Some x"
proof -
  assume "(''root'', v) \<in> (keyRel g)\<^sup>*"
  then obtain n where "(''root'', v) \<in> keyRel g ^^ n" by (auto simp: rtrancl_power)
  from bfsInv_complete[OF finalDepths_inv this] show ?thesis by blast
qed

lemma keyRel_childRel: "keyRel g \<subseteq> childRel g"
  by (auto simp: keyRel_def childRel_def)

lemma childRel_source_key: "(a, b) \<in> childRel g \<Longrightarrow> map_of g a \<noteq> None"
  by (cases "map_of g a") (auto simp: childRel_def kidsOf_def)

lemma reach_key:
  assumes "(a, v) \<in> (childRel g)\<^sup>*" and "map_of g v \<noteq> None"
  shows "(a, v) \<in> (keyRel g)\<^sup>*"
  using assms
proof (induction rule: rtrancl_induct)
  case base
  then show ?case by simp
next
  case (step y z)
  have "map_of g y \<noteq> None" using step.hyps(2) by (rule childRel_source_key)
  then have "(a, y) \<in> (keyRel g)\<^sup>*" by (rule step.IH)
  moreover have "(y, z) \<in> keyRel g"
    using step.hyps(2) step.prems by (simp add: keyRel_def childRel_def)
  ultimately show ?case by (rule rtrancl_into_rtrancl)
qed

lemma finalDepths_reachable:
  assumes "finalDepths g v = Some x"
  shows "(''root'', v) \<in> (childRel g)\<^sup>*"
proof -
  have "(''root'', v) \<in> keyRel g ^^ x" using assms by (rule finalDepths_minimal(1))
  then have "(''root'', v) \<in> (keyRel g)\<^sup>*" by (rule relpow_imp_rtrancl)
  then show ?thesis using keyRel_childRel rtrancl_mono by blast
qed

subsection \<open>The depths after the effect\<close>

definition depthOf :: "graph \<Rightarrow> ident \<Rightarrow> int option" where
  "depthOf g k = (case map_of g k of None \<Rightarrow> None | Some n \<Rightarrow> depth n)"

lemma map_of_map_entries:
  "map_of (map (\<lambda>(i, n). (i, f i n)) g) k = map_option (f k) (map_of g k)"
  by (induction g) auto

lemma recomputeDepths_lookup:
  "map_of g ''root'' \<noteq> None \<Longrightarrow>
   map_of (recomputeDepths g) k = map_option (setDepth (finalDepths g) k) (map_of g k)"
  by (auto simp: recomputeDepths_def finalDepths_def Let_def map_of_map_entries)

lemma depth_setDepth:
  "depth (setDepth td k n) = (case td k of None \<Rightarrow> depth n | Some want \<Rightarrow> Some (int want))"
  by (simp add: setDepth_def split: option.splits)

lemma setDepth_frame: "setDepth td k n = n\<lparr>depth := depth (setDepth td k n)\<rparr>"
  by (simp add: setDepth_def split: option.splits)

lemma depthOf_recompute:
  assumes "map_of g ''root'' \<noteq> None" and "map_of g k \<noteq> None" and "finalDepths g k = Some x"
  shows "depthOf (recomputeDepths g) k = Some (int x)"
  using assms by (auto simp: depthOf_def recomputeDepths_lookup depth_setDepth)

lemma finalDepths_key:
  assumes "map_of g ''root'' \<noteq> None" and "finalDepths g v = Some x"
  shows "map_of g v \<noteq> None"
proof (cases x)
  case 0
  with finalDepths_minimal(1)[OF assms(2)] have "v = ''root''" by simp
  with assms(1) show ?thesis by simp
next
  case (Suc n)
  with finalDepths_minimal(1)[OF assms(2)] have "(''root'', v) \<in> keyRel g ^^ Suc n" by simp
  then obtain y where "(y, v) \<in> keyRel g" by (rule relpow_Suc_E)
  then show ?thesis by (simp add: keyRel_def)
qed

lemma depth_of_only_child:
  assumes root: "map_of g ''root'' \<noteq> None" and v: "v \<noteq> ''root''"
    and x: "finalDepths g v = Some x"
    and only: "\<forall>p'. v \<in> set (kidsOf g p') \<longleftrightarrow> p' = p"
  shows "\<exists>xp. finalDepths g p = Some xp \<and> x = xp + 1"
proof (cases x)
  case 0
  with finalDepths_minimal(1)[OF x] v show ?thesis by simp
next
  case (Suc k)
  with finalDepths_minimal(1)[OF x] have "(''root'', v) \<in> keyRel g ^^ Suc k" by simp
  then obtain y where y: "(''root'', y) \<in> keyRel g ^^ k" "(y, v) \<in> keyRel g"
    by (rule relpow_Suc_E)
  from y(2) have "v \<in> set (kidsOf g y)" by (simp add: keyRel_def)
  with only have yp: "y = p" by blast
  from bfsInv_complete[OF finalDepths_inv y(1)] yp
  obtain xp where xp: "finalDepths g p = Some xp" "xp \<le> k" by blast
  have "p \<notin> set []" by simp
  from bfsInv_relaxed[OF finalDepths_inv xp(1) this] y(2) yp
  obtain z where "finalDepths g v = Some z" "z \<le> xp + 1" by blast
  with x Suc xp show ?thesis by auto
qed

text \<open>
  A graph whose stored depths are stale: \<open>root \<rightarrow> a, c\<close> and \<open>a \<rightarrow> b\<close>, and a node \<open>u\<close>
  that nothing refers to.
\<close>

definition staleGraph :: graph where
  "staleGraph = [(''root'', taskNode [''a'', ''c''] 5), (''a'', taskNode [''b''] 0),
     (''b'', taskNode [] 9), (''c'', taskNode [] 1), (''u'', taskNode [] 4)]"

lemma recomputeDepths_example:
  "recomputeDepths staleGraph = [(''root'', taskNode [''a'', ''c''] 0), (''a'', taskNode [''b''] 1),
     (''b'', taskNode [] 2), (''c'', taskNode [] 1), (''u'', taskNode [] 4)]"
  by (simp add: recomputeDepths_def staleGraph_def bfsDepths.simps relaxChildren.simps(2)
      kidsOf_def kids_def taskNode_def setDepth_def Let_def)

subsection \<open>Claim about the depths\<close>

text \<open>
  C5. For every graph that contains \<open>root\<close>, after \<open>recomputeDepths\<close> the root has depth 0;
  every node reachable from the root along the children relation has as depth the length
  of a shortest path from the root (paths run through ids that have a node); a node
  other than the root that is reachable and has exactly one parent \<open>p\<close> has depth
  \<open>1 + depth(p)\<close>; a node that is not reachable is left as it was; and no node changes
  in any field but \<open>depth\<close>.
\<close>

theorem recomputeDepths_bfs:
  assumes "map_of g ''root'' \<noteq> None"
  shows "depthOf (recomputeDepths g) ''root'' = Some 0
       \<and> (\<forall>v. map_of g v \<noteq> None \<and> (''root'', v) \<in> (childRel g)\<^sup>* \<longrightarrow>
             (\<exists>n. depthOf (recomputeDepths g) v = Some (int n)
                \<and> (''root'', v) \<in> keyRel g ^^ n
                \<and> (\<forall>m. (''root'', v) \<in> keyRel g ^^ m \<longrightarrow> n \<le> m)))
       \<and> (\<forall>v p. v \<noteq> ''root'' \<and> map_of g v \<noteq> None \<and> (''root'', v) \<in> (childRel g)\<^sup>*
               \<and> (\<forall>p'. v \<in> set (kidsOf g p') \<longleftrightarrow> p' = p) \<longrightarrow>
             (\<exists>dp. depthOf (recomputeDepths g) p = Some dp
                \<and> depthOf (recomputeDepths g) v = Some (1 + dp)))
       \<and> (\<forall>v. (''root'', v) \<notin> (childRel g)\<^sup>* \<longrightarrow>
             map_of (recomputeDepths g) v = map_of g v)
       \<and> (\<forall>v n'. map_of (recomputeDepths g) v = Some n' \<longrightarrow>
             (\<exists>n. map_of g v = Some n \<and> n' = n\<lparr>depth := depth n'\<rparr>))"
proof (intro conjI allI impI)
  have "finalDepths g ''root'' = Some 0" using finalDepths_inv by (rule bfsInv_root)
  with assms show "depthOf (recomputeDepths g) ''root'' = Some 0"
    using depthOf_recompute[of g "''root''" 0] by simp
next
  fix v
  assume a: "map_of g v \<noteq> None \<and> (''root'', v) \<in> (childRel g)\<^sup>*"
  then have "(''root'', v) \<in> (keyRel g)\<^sup>*" by (simp add: reach_key)
  then obtain x where x: "finalDepths g v = Some x" using finalDepths_reached by blast
  have "depthOf (recomputeDepths g) v = Some (int x)"
    using assms a x by (simp add: depthOf_recompute)
  moreover have "(''root'', v) \<in> keyRel g ^^ x" using x by (rule finalDepths_minimal(1))
  moreover have "\<forall>m. (''root'', v) \<in> keyRel g ^^ m \<longrightarrow> x \<le> m"
    using finalDepths_minimal(2)[OF x] by blast
  ultimately show "\<exists>n. depthOf (recomputeDepths g) v = Some (int n)
      \<and> (''root'', v) \<in> keyRel g ^^ n
      \<and> (\<forall>m. (''root'', v) \<in> keyRel g ^^ m \<longrightarrow> n \<le> m)" by blast
next
  fix v p
  assume a: "v \<noteq> ''root'' \<and> map_of g v \<noteq> None \<and> (''root'', v) \<in> (childRel g)\<^sup>*
      \<and> (\<forall>p'. v \<in> set (kidsOf g p') \<longleftrightarrow> p' = p)"
  then have "(''root'', v) \<in> (keyRel g)\<^sup>*" by (simp add: reach_key)
  then obtain x where x: "finalDepths g v = Some x" using finalDepths_reached by blast
  from a have v: "v \<noteq> ''root''" and only: "\<forall>p'. v \<in> set (kidsOf g p') \<longleftrightarrow> p' = p"
    by blast+
  from depth_of_only_child[OF assms v x only]
  obtain xp where xp: "finalDepths g p = Some xp" "x = xp + 1" by blast
  have pk: "map_of g p \<noteq> None" using assms xp(1) by (rule finalDepths_key)
  have "depthOf (recomputeDepths g) p = Some (int xp)"
    using assms pk xp(1) by (rule depthOf_recompute)
  moreover have "depthOf (recomputeDepths g) v = Some (int x)"
    using assms a x by (simp add: depthOf_recompute)
  ultimately show "\<exists>dp. depthOf (recomputeDepths g) p = Some dp
      \<and> depthOf (recomputeDepths g) v = Some (1 + dp)"
    using xp(2) by simp
next
  fix v
  assume "(''root'', v) \<notin> (childRel g)\<^sup>*"
  then have "finalDepths g v = None"
    using finalDepths_reachable[of g v] by (cases "finalDepths g v") auto
  then have "\<And>n. setDepth (finalDepths g) v n = n" by (simp add: setDepth_def)
  then show "map_of (recomputeDepths g) v = map_of g v"
    using assms by (cases "map_of g v") (simp_all add: recomputeDepths_lookup)
next
  fix v n'
  assume "map_of (recomputeDepths g) v = Some n'"
  then obtain n where n: "map_of g v = Some n" "n' = setDepth (finalDepths g) v n"
    using assms by (auto simp: recomputeDepths_lookup)
  then have "n' = n\<lparr>depth := depth n'\<rparr>" using setDepth_frame[of "finalDepths g" v n] by simp
  with n(1) show "\<exists>n. map_of g v = Some n \<and> n' = n\<lparr>depth := depth n'\<rparr>" by blast
qed

theorem recomputeDepths_bfs_witness:
  "map_of staleGraph ''root'' \<noteq> None
   \<and> depthOf (recomputeDepths staleGraph) ''root'' = Some 0
   \<and> depthOf (recomputeDepths staleGraph) ''a'' = Some 1
   \<and> depthOf (recomputeDepths staleGraph) ''b'' = Some 2
   \<and> depthOf (recomputeDepths staleGraph) ''u'' = Some 4"
proof -
  have r: "map_of staleGraph ''root'' \<noteq> None" by (simp add: staleGraph_def)
  have "depthOf (recomputeDepths staleGraph) ''root'' = Some 0"
    using recomputeDepths_bfs[OF r] by blast
  moreover have "depthOf (recomputeDepths staleGraph) ''a'' = Some 1"
    and "depthOf (recomputeDepths staleGraph) ''b'' = Some 2"
    and "depthOf (recomputeDepths staleGraph) ''u'' = Some 4"
    by (simp_all add: recomputeDepths_example depthOf_def taskNode_def)
  ultimately show ?thesis using r by blast
qed

section \<open>Advancing recurring tasks (the first effect of Home)\<close>

subsection \<open>The built-in Date\<close>

text \<open>
  A \<^verbatim>\<open>Date\<close> holds a time value: milliseconds since 1970-01-01T00:00 UTC, an integer of
  absolute value at most \<open>8.64 \<cdot> 10\<^sup>1\<^sup>5\<close>, or \<^verbatim>\<open>NaN\<close> (an invalid date; \<open>None\<close> here).
  Local time is \<open>tz\<close> minutes ahead of UTC (negative to the west); the offset is taken as
  constant, so daylight saving changes are not modelled. Calendar arithmetic is the
  proleptic Gregorian calendar of the language standard, on day numbers counted from
  1970-01-01.
\<close>

definition msPerDay :: int where
  "msPerDay = 86400000"

definition maxTime :: int where
  "maxTime = 8640000000000000"

definition timeClip :: "int \<Rightarrow> int option" where
  "timeClip t = (if \<bar>t\<bar> > maxTime then None else Some t)"

text \<open>The day number of the day \<open>d\<close> of month \<open>m\<close> (1 to 12) of year \<open>y\<close>, and back.\<close>

definition daysFromCivil :: "int \<Rightarrow> int \<Rightarrow> int \<Rightarrow> int" where
  "daysFromCivil y m d =
     (let y' = (if m \<le> 2 then y - 1 else y);
          era = y' div 400;
          yoe = y' - era * 400;
          doy = (153 * (if m > 2 then m - 3 else m + 9) + 2) div 5 + d - 1;
          doe = yoe * 365 + yoe div 4 - yoe div 100 + doy
      in era * 146097 + doe - 719468)"

definition civilFromDays :: "int \<Rightarrow> int \<times> int \<times> int" where
  "civilFromDays z =
     (let z' = z + 719468;
          era = z' div 146097;
          doe = z' - era * 146097;
          yoe = (doe - doe div 1460 + doe div 36524 - doe div 146096) div 365;
          doy = doe - (365 * yoe + yoe div 4 - yoe div 100);
          mp = (5 * doy + 2) div 153;
          d = doy - (153 * mp + 2) div 5 + 1;
          m = (if mp < 10 then mp + 3 else mp - 9);
          y = yoe + era * 400 + (if m \<le> 2 then 1 else 0)
      in (y, m, d))"

text \<open>
  \<^verbatim>\<open>new Date(year, month, day)\<close> for integers: a year from 0 to 99 means 1900 + year, a
  month index outside 0 to 11 carries into the year, a day outside the month carries into
  the neighbouring months; the result is local midnight of that day, or invalid when out
  of range. (\<^verbatim>\<open>due.setHours(0,0,0,0)\<close> after it changes nothing.)
\<close>

definition makeDay :: "int \<Rightarrow> int \<Rightarrow> int \<Rightarrow> int" where
  "makeDay year month date = daysFromCivil (year + month div 12) (month mod 12 + 1) 1 + date - 1"

definition newDate :: "int \<Rightarrow> int \<Rightarrow> int \<Rightarrow> int \<Rightarrow> int option" where
  "newDate tz year month day =
     (let yr = (if 0 \<le> year \<and> year \<le> 99 then 1900 + year else year)
      in timeClip (makeDay yr month day * msPerDay - tz * 60000))"

text \<open>\<^verbatim>\<open>due.toISOString().slice(0, 10)\<close>: the calendar date in UTC. A year outside 0 to 9999
  is written with a sign and six digits, of which the slice keeps the first ten characters.\<close>

definition digit :: "int \<Rightarrow> char" where
  "digit v = ''0123456789'' ! nat (v mod 10)"

definition pad2 :: "int \<Rightarrow> string" where
  "pad2 v = [digit (v div 10), digit v]"

definition pad4 :: "int \<Rightarrow> string" where
  "pad4 v = [digit (v div 1000), digit (v div 100), digit (v div 10), digit v]"

definition pad6 :: "int \<Rightarrow> string" where
  "pad6 v = [digit (v div 100000), digit (v div 10000)] @ pad4 v"

definition isoDate :: "int \<Rightarrow> string" where
  "isoDate t =
     (case civilFromDays (t div msPerDay) of
        (y, m, d) \<Rightarrow>
          take 10 ((if 0 \<le> y \<and> y \<le> 9999 then pad4 y
                    else (if y < 0 then ''-'' else ''+'') @ pad6 \<bar>y\<bar>)
                   @ ''-'' @ pad2 m @ ''-'' @ pad2 d))"

text \<open>
  \<^verbatim>\<open>Number(part)\<close> on a part of the split string: decimal digits give their value and the
  empty string gives 0. Every other string is \<^verbatim>\<open>NaN\<close> here (\<open>None\<close>); that is what
  JavaScript says too unless the part is one of its other numeric literals (white space
  around the digits, a sign, a fraction, an exponent, a radix prefix, \<^verbatim>\<open>Infinity\<close>), which
  the model leaves out.
\<close>

definition jsNumber :: "string \<Rightarrow> int option" where
  "jsNumber s =
     (if list_all isDigit s then Some (foldl (\<lambda>a c. 10 * a + (int (of_char c) - 48)) 0 s)
      else None)"

text \<open>\<^verbatim>\<open>s.split('-')\<close>.\<close>

fun splitOn :: "char \<Rightarrow> string \<Rightarrow> string list" where
  "splitOn sep [] = [[]]"
| "splitOn sep (c # cs) =
     (if c = sep then [] # splitOn sep cs
      else case splitOn sep cs of [] \<Rightarrow> [[c]] | p # ps \<Rightarrow> (c # p) # ps)"

text \<open>
  From \<^verbatim>\<open>node.dueDate.split('-')\<close> to \<^verbatim>\<open>if (isNaN(due.getTime())) continue\<close>: the parsed
  due date, or \<open>None\<close> on each of the paths that \<^verbatim>\<open>continue\<close>.
\<close>

definition parseDue :: "int \<Rightarrow> string \<Rightarrow> int option" where
  "parseDue tz s =
     (let parts = splitOn CHR ''-'' s in
      if length parts \<noteq> 3 then None
      else case (jsNumber (parts ! 0), jsNumber (parts ! 1), jsNumber (parts ! 2)) of
             (Some year, Some m, Some day) \<Rightarrow> newDate tz year (m - 1) day
           | _ \<Rightarrow> None)"

subsection \<open>The effect\<close>

text \<open>
  \<^verbatim>\<open>while (due < today && guard < 1000) { due.setDate(due.getDate() + step); guard++ }\<close>.
  \<^verbatim>\<open>setDate\<close> moves the date by \<open>step\<close> local days; when that leaves the range of time
  values the date becomes invalid, the test \<^verbatim>\<open>due < today\<close> fails and the loop ends.
\<close>

function advanceLoop :: "int \<Rightarrow> int \<Rightarrow> int \<Rightarrow> nat \<Rightarrow> int option" where
  "advanceLoop today step due guard =
     (if due < today \<and> guard < 1000 then
        (case timeClip (due + step * msPerDay) of
           None \<Rightarrow> None
         | Some due' \<Rightarrow> advanceLoop today step due' (guard + 1))
      else Some due)"
  by pat_completeness auto
termination
  by (relation "measure (\<lambda>(today, step, due, guard). 1000 - guard)") auto

declare advanceLoop.simps [simp del]

text \<open>
  The body of the \<^verbatim>\<open>for\<close> loop for one node. An invalid date after the loop differs from
  \<^verbatim>\<open>originalTime\<close>, and \<^verbatim>\<open>toISOString\<close> throws a \<^verbatim>\<open>RangeError\<close> on it.
\<close>

datatype error = RangeError

definition advanceNode :: "int \<Rightarrow> int \<Rightarrow> node \<Rightarrow> error + node" where
  "advanceNode tz today node =
     (case (dueDate node, repeatDays node) of
        (Some ds, Some step) \<Rightarrow>
          if ds = [] \<or> \<not> step > 0 \<or> completed node \<noteq> Some True then Inr node
          else (case parseDue tz ds of
                  None \<Rightarrow> Inr node
                | Some due \<Rightarrow>
                    if due \<ge> today then Inr node
                    else if step \<le> 0 then Inr node
                    else (case advanceLoop today step due 0 of
                            None \<Rightarrow> Inl RangeError
                          | Some due' \<Rightarrow>
                              if due' \<noteq> due
                              then Inr (node\<lparr>dueDate := Some (isoDate due'),
                                             completed := Some False\<rparr>)
                              else Inr node))
      | _ \<Rightarrow> Inr node)"



subsection \<open>The loop\<close>

lemma advanceLoop_stop:
  "\<not> (due < today \<and> guard < 1000) \<Longrightarrow> advanceLoop today step due guard = Some due"
  by (subst advanceLoop.simps) auto

lemma advanceLoop_go:
  "due < today \<Longrightarrow> guard < 1000 \<Longrightarrow>
   advanceLoop today step due guard =
     (case timeClip (due + step * msPerDay) of
        None \<Rightarrow> None
      | Some due' \<Rightarrow> advanceLoop today step due' (guard + 1))"
  by (subst advanceLoop.simps) simp


lemma advanceLoop_run:
  assumes "\<forall>i < j. due + int i * (step * msPerDay) < today"
    and "guard + j \<le> 1000"
    and "today \<le> due + int j * (step * msPerDay) \<or> guard + j = 1000"
    and "\<forall>i \<le> j. \<bar>due + int i * (step * msPerDay)\<bar> \<le> maxTime"
  shows "advanceLoop today step due guard = Some (due + int j * (step * msPerDay))"
  using assms
proof (induction j arbitrary: due guard)
  case 0
  then have "\<not> (due < today \<and> guard < 1000)" by auto
  then show ?case by (simp add: advanceLoop_stop)
next
  case (Suc j)
  let ?s = "step * msPerDay"
  have c: "due < today \<and> guard < 1000"
    using Suc.prems(1,2) by (auto dest: spec[of _ 0])
  have "\<bar>due + int 1 * ?s\<bar> \<le> maxTime" using Suc.prems(4) by (auto dest: spec[of _ 1])
  then have clip: "timeClip (due + ?s) = Some (due + ?s)" by (simp add: timeClip_def)
  have shift: "\<And>i. due + ?s + int i * ?s = due + int (Suc i) * ?s"
    by (simp add: algebra_simps)
  have "advanceLoop today step (due + ?s) (guard + 1) = Some (due + ?s + int j * ?s)"
  proof (rule Suc.IH)
    show "\<forall>i < j. due + ?s + int i * ?s < today"
      using Suc.prems(1) unfolding shift by auto
    show "guard + 1 + j \<le> 1000" using Suc.prems(2) by simp
    show "today \<le> due + ?s + int j * ?s \<or> guard + 1 + j = 1000"
      using Suc.prems(3) unfolding shift by auto
    show "\<forall>i \<le> j. \<bar>due + ?s + int i * ?s\<bar> \<le> maxTime"
      using Suc.prems(4) unfolding shift by auto
  qed
  then have "advanceLoop today step (due + ?s) (guard + 1) = Some (due + int (Suc j) * ?s)"
    unfolding shift .
  with c clip show ?case by (simp add: advanceLoop_go)
qed



subsection \<open>One node, and the whole graph\<close>










subsection \<open>Examples\<close>

text \<open>A completed task with a due date and a repeat interval; 2024-01-10 as \<open>today\<close>
  (day 19732) in a browser whose local time is UTC.\<close>

definition repeatingTask :: "string \<Rightarrow> int \<Rightarrow> node" where
  "repeatingTask ds r = \<lparr>title = Some ''water'', type = Some ''task'', children = Some [],
     visible = Some True, completed = Some True, dueDate = Some ds, repeatDays = Some r,
     content = None, depth = Some 1\<rparr>"

definition jan10 :: int where
  "jan10 = 19732 * msPerDay"













text \<open>
  East of Greenwich the stored string falls a day behind. In a browser one hour ahead of
  UTC, local midnight of 2024-01-10 is 23:00 UTC of the day before; a daily task due on
  2024-01-09 is advanced to that instant, and the date written back is again 2024-01-09.
\<close>

lemma advanceNode_east_of_utc:
  "parseDue 60 ''2024-01-10'' = Some (jan10 - 3600000)
   \<and> advanceNode 60 (jan10 - 3600000) (repeatingTask ''2024-01-09'' 1)
       = Inr ((repeatingTask ''2024-01-09'' 1)\<lparr>dueDate := Some ''2024-01-09'',
                completed := Some False\<rparr>)"
proof -
  have p10: "parseDue 60 ''2024-01-10'' = Some (jan10 - 3600000)"
    by code_simp
  have p9: "parseDue 60 ''2024-01-09'' = Some (jan10 - 3600000 - msPerDay)"
    by code_simp
  have "advanceLoop (jan10 - 3600000) 1 (jan10 - 3600000 - msPerDay) 0
      = Some (jan10 - 3600000 - msPerDay + int 1 * (1 * msPerDay))"
  proof (rule advanceLoop_run)
    show "\<forall>i < 1. jan10 - 3600000 - msPerDay + int i * (1 * msPerDay) < jan10 - 3600000"
      unfolding msPerDay_def jan10_def by simp
    show "0 + 1 \<le> (1000::nat)" by simp
    show "jan10 - 3600000 \<le> jan10 - 3600000 - msPerDay + int 1 * (1 * msPerDay)
        \<or> 0 + 1 = (1000::nat)"
      by simp
    show "\<forall>i \<le> 1. \<bar>jan10 - 3600000 - msPerDay + int i * (1 * msPerDay)\<bar> \<le> maxTime"
      unfolding msPerDay_def maxTime_def jan10_def by simp
  qed
  then have l: "advanceLoop (jan10 - 3600000) 1 (jan10 - 3600000 - msPerDay) 0
      = Some (jan10 - 3600000)" by simp
  have i: "isoDate (jan10 - 3600000) = ''2024-01-09''"
    by code_simp
  have "(jan10 - 3600000 \<le> jan10 - 3600000 - msPerDay) = False"
    "(jan10 - 3600000 = jan10 - 3600000 - msPerDay) = False"
    by (simp_all add: msPerDay_def)
  with p10 show ?thesis
    by (simp add: advanceNode_def repeatingTask_def p9 l i)
qed

subsection \<open>Claim about the advance\<close>




end
